theory Spec2Isabelle
  imports Main "HOL-Library.Sublist" "HOL-Library.Multiset" "HOL-Library.Char_ord"
    "HOL-Library.List_Lexorder"
begin

section \<open>Strings\<close>

text \<open>
  Python strings are modelled as HOL strings: lists of characters with code points
  0..255 (Latin-1), compared lexicographically by code point as Python does.  The
  string methods the scripts call are written out for that range.
\<close>

definition is_space :: "char \<Rightarrow> bool" where
  "is_space c =
     (let n = (of_char c :: nat)
      in (9 \<le> n \<and> n \<le> 13) \<or> (28 \<le> n \<and> n \<le> 32) \<or> n = 133 \<or> n = 160)"

definition strip :: "string \<Rightarrow> string" where
  "strip s = rev (dropWhile is_space (rev (dropWhile is_space s)))"

definition lower_char :: "char \<Rightarrow> char" where
  "lower_char c =
     (let n = (of_char c :: nat)
      in if (65 \<le> n \<and> n \<le> 90) \<or> (192 \<le> n \<and> n \<le> 222 \<and> n \<noteq> 215)
         then char_of (n + 32) else c)"

definition lower :: "string \<Rightarrow> string" where
  "lower s = map lower_char s"

definition startswith :: "string \<Rightarrow> string \<Rightarrow> bool" where
  "startswith s p = prefix p s"

text \<open>\<open>contains s sub\<close> is Python's \<open>sub in s\<close>: \<open>sub\<close> occurs in \<open>s\<close> as a contiguous run.\<close>

fun contains :: "string \<Rightarrow> string \<Rightarrow> bool" where
  "contains [] sub = (sub = [])"
| "contains (c # cs) sub = (prefix sub (c # cs) \<or> contains cs sub)"

text \<open>\<open>split_comma s\<close> is \<open>s.split(',')\<close>; the empty string gives one empty fragment.\<close>

fun split_comma :: "string \<Rightarrow> string list" where
  "split_comma [] = [[]]"
| "split_comma (c # cs) =
     (if c = CHR '','' then [] # split_comma cs
      else (case split_comma cs of
              [] \<Rightarrow> [[c]]
            | w # ws \<Rightarrow> (c # w) # ws))"

definition replace_newline :: "string \<Rightarrow> string" where
  "replace_newline s = map (\<lambda>c. if c = CHR 0x0A then CHR '' '' else c) s"

section \<open>Paper records\<close>

text \<open>
  A paper is the dict that \<open>fetch_papers\<close> yields: the four harvested keys are always
  present; \<open>ai_for_hw\<close> and \<open>tags\<close> are absent (\<open>None\<close>) until the classifier and the
  tagger add them.  JSON objects lacking one of the four harvested keys are not modelled.
\<close>

record paper =
  title :: string
  url :: string
  abstract :: string
  published :: string
  ai_for_hw :: "bool option"
  tags :: "string list option"

section \<open>list.sort with a key, reverse=True\<close>

text \<open>
  \<open>xs.sort(key=f, reverse=True)\<close> orders by descending key and keeps the original
  relative order of elements with equal keys.
\<close>

fun insort_desc :: "('a \<Rightarrow> 'k::linorder) \<Rightarrow> 'a \<Rightarrow> 'a list \<Rightarrow> 'a list" where
  "insort_desc f x [] = [x]"
| "insort_desc f x (y # ys) =
     (if f y \<le> f x then x # y # ys else y # insort_desc f x ys)"

definition sort_desc :: "('a \<Rightarrow> 'k::linorder) \<Rightarrow> 'a list \<Rightarrow> 'a list" where
  "sort_desc f xs = foldr (insort_desc f) xs []"

definition descending :: "('a \<Rightarrow> 'k::linorder) \<Rightarrow> 'a list \<Rightarrow> bool" where
  "descending f xs = sorted_wrt (\<lambda>a b. f b \<le> f a) xs"

section \<open>arxiv_manager_min.py: harvesting\<close>

text \<open>
  One entry of \<open>client.results(search)\<close>, with the publication time already formatted
  as \<open>%Y-%m-%dT%H:%M:%SZ\<close>.
\<close>

record arxiv_result =
  res_title :: string
  res_entry_id :: string
  res_summary :: string
  res_published :: string

text \<open>
  How the result iterator of one query ends: it is exhausted, it raises
  \<open>UnexpectedEmptyPageError\<close>, or it raises another exception.
\<close>

datatype stream_end = Exhausted | EmptyPage | Failed string

type_synonym query_stream = "arxiv_result list \<times> stream_end"

definition to_item :: "arxiv_result \<Rightarrow> paper" where
  "to_item r =
     \<lparr> title = strip (res_title r),
       url = res_entry_id r,
       abstract = replace_newline (strip (res_summary r)),
       published = res_published r,
       ai_for_hw = None,
       tags = None \<rparr>"

text \<open>
  \<open>fetch_papers\<close> yields one item per result received; both \<open>except\<close> clauses only
  print, so in all three cases the generator ends normally after the items yielded so far.
\<close>

fun fetch_papers :: "query_stream \<Rightarrow> paper list" where
  "fetch_papers (rs, Exhausted) = map to_item rs"
| "fetch_papers (rs, EmptyPage) = map to_item rs"
| "fetch_papers (rs, Failed e) = map to_item rs"

text \<open>The body of the inner loop of \<open>main\<close>: skip a seen url, else append and record it.\<close>

fun dedup_step :: "paper \<Rightarrow> paper list \<times> string set \<Rightarrow> paper list \<times> string set" where
  "dedup_step item (new_items, seen_urls) =
     (if url item \<in> seen_urls then (new_items, seen_urls)
      else (new_items @ [item], insert (url item) seen_urls))"

definition run_query :: "query_stream \<Rightarrow> paper list \<times> string set \<Rightarrow> paper list \<times> string set" where
  "run_query q acc = fold dedup_step (fetch_papers q) acc"

definition accumulate :: "query_stream list \<Rightarrow> paper list \<times> string set" where
  "accumulate queries = fold run_query queries ([], {})"

definition harvest :: "query_stream list \<Rightarrow> paper list" where
  "harvest queries = sort_desc published (fst (accumulate queries))"

text \<open>The first occurrence of every url, in order of appearance.\<close>

fun first_occurrences :: "string set \<Rightarrow> paper list \<Rightarrow> paper list" where
  "first_occurrences seen [] = []"
| "first_occurrences seen (x # xs) =
     (if url x \<in> seen then first_occurrences seen xs
      else x # first_occurrences (insert (url x) seen) xs)"

section \<open>Files\<close>

text \<open>
  The file system maps a path to the text of the file there.  \<open>json.dump\<close> and
  \<open>json.load\<close> belong to the Python library; they are taken as the two functions of a
  codec.  A save returns the list of file-system states it goes through, in order (the
  empty list when it touches nothing), so that a run interrupted part-way is a run that
  stopped in one of those states.
\<close>

type_synonym fs = "string \<Rightarrow> string option"

record json_codec =
  dumps :: "paper list \<Rightarrow> string"
  loads :: "string \<Rightarrow> paper list option"

datatype error =
    IOError
  | JSONDecodeError
  | OpenAIError string
  | OtherException string
  | RuntimeError string
  | SystemExit nat

text \<open>What goes wrong during one save, if anything.\<close>

datatype io_fault = NoFault | OpenFails | WriteFailsAfter nat | RenameFails

text \<open>
  \<open>open(path, "w")\<close> truncates the file; the text then reaches the file a piece at a
  time, so every prefix of it is a possible content.
\<close>

definition write_prefixes :: "fs \<Rightarrow> string \<Rightarrow> string \<Rightarrow> fs list" where
  "write_prefixes fs path text = map (\<lambda>n. fs(path \<mapsto> take n text)) [0..<Suc (length text)]"

text \<open>\<open>with open(path, "w") as f: json.dump(data, f)\<close>, with no exception handler.\<close>

definition direct_write :: "io_fault \<Rightarrow> fs \<Rightarrow> string \<Rightarrow> string \<Rightarrow> fs list \<times> (error + unit)" where
  "direct_write fault fs path text =
     (case fault of
        OpenFails \<Rightarrow> ([], Inl IOError)
      | WriteFailsAfter n \<Rightarrow>
          (if n < length text then (take (Suc n) (write_prefixes fs path text), Inl IOError)
           else (write_prefixes fs path text, Inr ()))
      | _ \<Rightarrow> (write_prefixes fs path text, Inr ()))"

definition final_fs :: "fs \<Rightarrow> fs list \<Rightarrow> fs" where
  "final_fs fs trace = (if trace = [] then fs else last trace)"

section \<open>arxiv_manager_min.py: load, save, merge\<close>

definition load_existing :: "json_codec \<Rightarrow> fs \<Rightarrow> string \<Rightarrow> error + (paper list \<times> string set)" where
  "load_existing c fs path =
     (case fs path of
        None \<Rightarrow> Inr ([], {})
      | Some text \<Rightarrow>
          (case loads c text of
             None \<Rightarrow> Inl JSONDecodeError
           | Some data \<Rightarrow> Inr (data, url ` set data)))"

definition save_json :: "json_codec \<Rightarrow> io_fault \<Rightarrow> fs \<Rightarrow> string \<Rightarrow> paper list \<Rightarrow> fs list \<times> (error + unit)" where
  "save_json c fault fs path data = direct_write fault fs path (dumps c data)"

text \<open>The loop of mode 1 over \<open>new_items\<close>: append what is not in \<open>existing_urls\<close> and count it.\<close>

fun merge_step :: "string set \<Rightarrow> paper \<Rightarrow> paper list \<times> nat \<Rightarrow> paper list \<times> nat" where
  "merge_step existing_urls item (merged, add_count) =
     (if url item \<notin> existing_urls then (merged @ [item], Suc add_count)
      else (merged, add_count))"

definition merge_incremental :: "paper list \<Rightarrow> paper list \<Rightarrow> string set \<Rightarrow> paper list \<times> nat" where
  "merge_incremental new_items existing_data existing_urls =
     (case fold (merge_step existing_urls) new_items ([], 0) of
        (merged, add_count) \<Rightarrow> (merged @ existing_data, add_count))"

text \<open>
  \<open>main\<close> after argument parsing: \<open>mode\<close> is 0 or 1, \<open>output\<close> the output path,
  \<open>queries\<close> what the search client returns for each query in turn.
\<close>

definition arxiv_main :: "json_codec \<Rightarrow> io_fault \<Rightarrow> fs \<Rightarrow> nat \<Rightarrow> string \<Rightarrow> query_stream list
    \<Rightarrow> fs list \<times> (error + unit)" where
  "arxiv_main c fault fs mode output queries =
     (let new_items = harvest queries in
      if mode = 0 then save_json c fault fs output new_items
      else
        (case load_existing c fs output of
           Inl e \<Rightarrow> ([], Inl e)
         | Inr (existing_data, existing_urls) \<Rightarrow>
             (case merge_incremental new_items existing_data existing_urls of
                (merged, add_count) \<Rightarrow>
                  if add_count = 0 then ([], Inr ())
                  else save_json c fault fs output merged)))"

text \<open>The records of \<open>H\<close> that are new with respect to \<open>P\<close>.\<close>

definition new_records :: "paper list \<Rightarrow> paper list \<Rightarrow> paper list" where
  "new_records H P = filter (\<lambda>h. url h \<notin> url ` set P) H"

section \<open>The external model service\<close>

text \<open>
  For one paper's prompt, a service tells what \<open>client.chat.completions.create\<close> does
  at each attempt (counted from 1): it returns a completion with some content, raises an
  \<open>OpenAIError\<close>, or raises another exception.
\<close>

datatype reply = Content string | ApiError string | OtherError string

type_synonym service = "nat \<Rightarrow> reply"

definition MAX_RETRY :: nat where
  "MAX_RETRY = 3"

text \<open>
  The retry loop shared by both \<open>query_model\<close> functions, over the attempts still to
  make; \<open>post\<close> is what the function applies to the content before returning it.  Only
  an \<open>OpenAIError\<close> is caught, and it is raised again at the last attempt.
\<close>

fun query_loop :: "(string \<Rightarrow> string) \<Rightarrow> service \<Rightarrow> nat list \<Rightarrow> error + string" where
  "query_loop post svc [] =
     Inl (RuntimeError ''Failed to get response from OpenAI API after retries'')"
| "query_loop post svc (attempt # rest) =
     (case svc attempt of
        Content c \<Rightarrow> Inr (post c)
      | ApiError e \<Rightarrow>
          (if attempt = MAX_RETRY then Inl (OpenAIError e) else query_loop post svc rest)
      | OtherError e \<Rightarrow> Inl (OtherException e))"

text \<open>What the wrappers print when a paper fails: the paper's title and the exception.\<close>

datatype diag = ClassificationFailed string error | TaggingFailed string error

text \<open>
  \<open>list(executor.map(f, items))\<close>: the results in order, or the first exception that a
  call raised.
\<close>

fun collect :: "(error + 'a) list \<Rightarrow> error + 'a list" where
  "collect [] = Inr []"
| "collect (Inl e # rs) = Inl e"
| "collect (Inr x # rs) = (case collect rs of Inl e \<Rightarrow> Inl e | Inr xs \<Rightarrow> Inr (x # xs))"

text \<open>
  The items a batch processes are the very objects of the list they were selected from,
  and are changed in place: in that list, each selected item is replaced by its processed
  version, in order.
\<close>

fun update_selected :: "('a \<Rightarrow> bool) \<Rightarrow> 'a list \<Rightarrow> 'a list \<Rightarrow> 'a list" where
  "update_selected sel [] ps = []"
| "update_selected sel (x # xs) ps =
     (if sel x then
        (case ps of
           [] \<Rightarrow> x # update_selected sel xs []
         | p # ps' \<Rightarrow> p # update_selected sel xs ps')
      else x # update_selected sel xs ps)"

section \<open>classify_papers.py\<close>

text \<open>
  \<open>safe_json_write\<close>: write the text to \<open>path + ".tmp"\<close>, then rename it onto \<open>path\<close>.
  The handler removes the temporary file if it exists and raises again.
\<close>

definition cleanup :: "string \<Rightarrow> fs \<Rightarrow> fs list" where
  "cleanup temp_path s = (if s temp_path \<noteq> None then [s(temp_path := None)] else [])"

definition safe_json_write :: "json_codec \<Rightarrow> io_fault \<Rightarrow> fs \<Rightarrow> paper list \<Rightarrow> string
    \<Rightarrow> fs list \<times> (error + unit)" where
  "safe_json_write c fault fs data_to_write path =
     (let temp_path = path @ ''.tmp'';
          text = dumps c data_to_write;
          written = write_prefixes fs temp_path text
      in case fault of
           OpenFails \<Rightarrow> (cleanup temp_path fs, Inl IOError)
         | WriteFailsAfter n \<Rightarrow>
             (if n < length text then
                (take (Suc n) written @ cleanup temp_path (last (take (Suc n) written)),
                 Inl IOError)
              else (written @ [(last written)(temp_path := None, path \<mapsto> text)], Inr ()))
         | RenameFails \<Rightarrow> (written @ cleanup temp_path (last written), Inl IOError)
         | NoFault \<Rightarrow> (written @ [(last written)(temp_path := None, path \<mapsto> text)], Inr ()))"

definition classify_query_model :: "service \<Rightarrow> error + string" where
  "classify_query_model svc = query_loop (\<lambda>c. lower (strip c)) svc [1..<Suc MAX_RETRY]"

definition classify_item :: "service \<Rightarrow> paper \<Rightarrow> bool \<Rightarrow> error + (paper \<times> bool)" where
  "classify_item svc item overwrite =
     (case (if overwrite then None else ai_for_hw item) of
        Some b \<Rightarrow> Inr (item, b)
      | None \<Rightarrow>
          (case classify_query_model svc of
             Inl e \<Rightarrow> Inl e
           | Inr result \<Rightarrow>
               (let label = startswith result ''t''
                in Inr (item\<lparr>ai_for_hw := Some label\<rparr>, label))))"

text \<open>
  \<open>process_wrapper\<close> of the classifier: any exception of \<open>classify_item\<close> is caught and
  reported, and the item stays as it was.
\<close>

definition classify_process_wrapper :: "service \<Rightarrow> paper \<Rightarrow> bool \<Rightarrow> error + (paper \<times> diag list)" where
  "classify_process_wrapper svc item overwrite =
     (case classify_item svc item overwrite of
        Inl e \<Rightarrow> Inr (item, [ClassificationFailed (title item) e])
      | Inr (item', label) \<Rightarrow> Inr (item', []))"

text \<open>
  The items to process: with a labeled file to diff against (\<open>Some labeled_data\<close>), the
  input items whose url is not a non-empty url of that file; otherwise the input items
  without \<open>ai_for_hw\<close>, or all of them under \<open>--overwrite\<close>.
\<close>

definition needs_label :: "bool \<Rightarrow> paper \<Rightarrow> bool" where
  "needs_label overwrite item = (overwrite \<or> ai_for_hw item = None)"

definition nonempty_urls :: "paper list \<Rightarrow> string set" where
  "nonempty_urls items = url ` set (filter (\<lambda>item. url item \<noteq> []) items)"

definition classify_select :: "paper list \<Rightarrow> paper list option \<Rightarrow> bool \<Rightarrow> paper list" where
  "classify_select data diff overwrite =
     (case diff of
        Some labeled_data \<Rightarrow> filter (\<lambda>item. url item \<notin> nonempty_urls labeled_data) data
      | None \<Rightarrow> filter (needs_label overwrite) data)"

text \<open>
  The batch and the final data set.  \<open>svcs k\<close> is the service met by the \<open>k\<close>-th item to
  process.  Without a diff file \<open>final_data\<close> is the list \<open>data\<close> itself, whose selected
  items have been changed in place; in both cases \<open>final_data.extend(items_to_process)\<close>
  then appends the processed items.
\<close>

definition classify_batch :: "(nat \<Rightarrow> service) \<Rightarrow> bool \<Rightarrow> paper list \<Rightarrow> error + (paper \<times> diag list) list" where
  "classify_batch svcs overwrite items_to_process =
     collect (map (\<lambda>(k, item). classify_process_wrapper (svcs k) item overwrite)
                  (zip [0..<length items_to_process] items_to_process))"

definition classify_annotate :: "(nat \<Rightarrow> service) \<Rightarrow> bool \<Rightarrow> paper list \<Rightarrow> paper list option
    \<Rightarrow> error + (paper list \<times> diag list)" where
  "classify_annotate svcs overwrite data diff =
     (let items_to_process = classify_select data diff overwrite in
      if items_to_process = [] then
        Inr ((case diff of Some labeled_data \<Rightarrow> labeled_data | None \<Rightarrow> data), [])
      else
        (case classify_batch svcs overwrite items_to_process of
           Inl e \<Rightarrow> Inl e
         | Inr rs \<Rightarrow>
             (let processed = map fst rs;
                  final_data =
                    (case diff of
                       Some labeled_data \<Rightarrow> labeled_data
                     | None \<Rightarrow> update_selected (needs_label overwrite) data processed)
              in Inr (final_data @ processed, concat (map snd rs)))))"

definition positive :: "paper \<Rightarrow> bool" where
  "positive item = (ai_for_hw item = Some True)"

text \<open>
  \<open>main\<close> of the classifier after argument parsing and the API key check: the paths are
  given, \<open>f_unl\<close>, \<open>f_main\<close> and \<open>f_filt\<close> are the faults of its three writes.  A missing
  input file and a failed write of the main output exit with status 1; a failed write of
  the filtered output is only reported.
\<close>

definition load_diff :: "json_codec \<Rightarrow> fs \<Rightarrow> string \<Rightarrow> error + paper list option" where
  "load_diff c fs diff_against =
     (case fs diff_against of
        None \<Rightarrow> Inr None
      | Some text \<Rightarrow>
          (case loads c text of
             None \<Rightarrow> Inl JSONDecodeError
           | Some labeled_data \<Rightarrow> Inr (Some labeled_data)))"

definition classify_save :: "json_codec \<Rightarrow> io_fault \<Rightarrow> io_fault \<Rightarrow> fs \<Rightarrow> paper list \<Rightarrow> string \<Rightarrow> string
    \<Rightarrow> fs list \<times> (error + unit)" where
  "classify_save c f_main f_filt fs final_data output_path filtered_output_path =
     (case safe_json_write c f_main fs final_data output_path of
        (tr, Inl e) \<Rightarrow> (tr, Inl (SystemExit 1))
      | (tr, Inr u) \<Rightarrow>
          (if filter positive final_data = [] then (tr, Inr ())
           else
             (case safe_json_write c f_filt (final_fs fs tr) (filter positive final_data)
                     filtered_output_path of
                (tr', r) \<Rightarrow> (tr @ tr', Inr ()))))"

definition classify_main :: "json_codec \<Rightarrow> (nat \<Rightarrow> service) \<Rightarrow> bool \<Rightarrow> io_fault \<Rightarrow> io_fault \<Rightarrow> io_fault
    \<Rightarrow> fs \<Rightarrow> string \<Rightarrow> string \<Rightarrow> string \<Rightarrow> string \<Rightarrow> string \<Rightarrow> fs list \<times> (error + unit)" where
  "classify_main c svcs overwrite f_unl f_main f_filt fs input output_path
       filtered_output_path unlabeled_output_path diff_against =
     (case fs input of
        None \<Rightarrow> ([], Inl (SystemExit 1))
      | Some text \<Rightarrow>
     (case loads c text of
        None \<Rightarrow> ([], Inl JSONDecodeError)
      | Some data \<Rightarrow>
     (case load_diff c fs diff_against of
        Inl e \<Rightarrow> ([], Inl e)
      | Inr diff \<Rightarrow>
     (case (if classify_select data diff overwrite = [] then ([], Inr ())
            else direct_write f_unl fs unlabeled_output_path
                   (dumps c (classify_select data diff overwrite))) of
        (tr1, Inl e) \<Rightarrow> (tr1, Inl e)
      | (tr1, Inr u) \<Rightarrow>
     (case classify_annotate svcs overwrite data diff of
        Inl e \<Rightarrow> (tr1, Inl e)
      | Inr (final_data, diags) \<Rightarrow>
     (case classify_save c f_main f_filt (final_fs fs tr1) final_data output_path
             filtered_output_path of
        (tr2, r) \<Rightarrow> (tr1 @ tr2, r)))))))"

section \<open>tag_papers.py\<close>

definition VALID_TAGS :: "string list" where
  "VALID_TAGS =
     [''Verification'', ''Synthesis'', ''P&R'', ''Analog Design'',
      ''System-level Optimization'', ''Code Generation'', ''Security'', ''Testing'',
      ''Other'']"

definition tag_query_model :: "service \<Rightarrow> error + string" where
  "tag_query_model svc = query_loop strip svc [1..<Suc MAX_RETRY]"

text \<open>
  The scan in \<open>tag_item\<close>: for each comma-separated fragment in turn, for each valid tag
  in turn, the tag is appended when its lowercase form occurs in the lowercase fragment
  and it has not been found yet; with nothing found the result is \<open>["Other"]\<close>.
\<close>

definition raw_tags :: "string \<Rightarrow> string list" where
  "raw_tags result_str = map strip (split_comma result_str)"

definition tag_matches :: "string \<Rightarrow> string \<Rightarrow> bool" where
  "tag_matches raw_tag valid_tag = contains (lower raw_tag) (lower valid_tag)"

definition scan_step :: "string \<Rightarrow> string \<Rightarrow> string list \<Rightarrow> string list" where
  "scan_step raw_tag valid_tag found_tags =
     (if tag_matches raw_tag valid_tag \<and> valid_tag \<notin> set found_tags
      then found_tags @ [valid_tag] else found_tags)"

definition scan_tags :: "string list \<Rightarrow> string list" where
  "scan_tags raws = fold (\<lambda>raw_tag. fold (scan_step raw_tag) VALID_TAGS) raws []"

definition found_tags_of :: "string \<Rightarrow> string list" where
  "found_tags_of result_str =
     (let found_tags = scan_tags (raw_tags result_str)
      in if found_tags = [] then [''Other''] else found_tags)"

definition tag_item :: "service \<Rightarrow> paper \<Rightarrow> bool \<Rightarrow> error + paper" where
  "tag_item svc item overwrite =
     (if \<not> overwrite \<and> tags item \<noteq> None then Inr item
      else
        (case tag_query_model svc of
           Inl e \<Rightarrow> Inl e
         | Inr result_str \<Rightarrow> Inr (item\<lparr>tags := Some (found_tags_of result_str)\<rparr>)))"

text \<open>
  \<open>process_wrapper\<close> of the tagger calls \<open>tag_item\<close> with \<open>overwrite=True\<close>; any
  exception is caught and reported, and the item gets the tags \<open>["Error"]\<close>.
\<close>

definition tag_process_wrapper :: "service \<Rightarrow> paper \<Rightarrow> error + (paper \<times> diag list)" where
  "tag_process_wrapper svc item =
     (case tag_item svc item True of
        Inl e \<Rightarrow> Inr (item\<lparr>tags := Some [''Error'']\<rparr>, [TaggingFailed (title item) e])
      | Inr item' \<Rightarrow> Inr (item', []))"

text \<open>
  The tagger never reads the iterator that \<open>executor.map\<close> returns, so an exception
  leaving a wrapper would be dropped with the item as it was; leaving the \<open>with\<close> block
  waits for every call.
\<close>

definition tag_batch :: "(nat \<Rightarrow> service) \<Rightarrow> paper list \<Rightarrow> (paper \<times> diag list) list" where
  "tag_batch svcs items_to_process =
     map (\<lambda>(k, item). case tag_process_wrapper (svcs k) item of
                          Inl e \<Rightarrow> (item, [])
                        | Inr r \<Rightarrow> r)
         (zip [0..<length items_to_process] items_to_process)"

definition tag_select :: "paper list \<Rightarrow> paper list \<Rightarrow> bool \<Rightarrow> paper list" where
  "tag_select all_papers existing_papers overwrite =
     (if overwrite then all_papers
      else filter (\<lambda>item. url item \<notin> nonempty_urls existing_papers) all_papers)"

text \<open>
  The final data of the tagger, sorted as it is saved: the existing papers followed by the
  processed ones, by \<open>published\<close> descending.
\<close>

definition tag_annotate :: "(nat \<Rightarrow> service) \<Rightarrow> bool \<Rightarrow> paper list \<Rightarrow> paper list
    \<Rightarrow> paper list \<times> diag list" where
  "tag_annotate svcs overwrite all_papers existing_papers =
     (let items_to_process = tag_select all_papers existing_papers overwrite in
      if items_to_process = [] then (sort_desc published existing_papers, [])
      else
        (let rs = tag_batch svcs items_to_process
         in (sort_desc published (existing_papers @ map fst rs), concat (map snd rs))))"

text \<open>
  \<open>main\<close> of the tagger after argument parsing and the API key check.  The existing
  output is read unless \<open>--overwrite\<close> is given; an unreadable one counts as empty.  The
  result is written straight to the output path.
\<close>

definition load_tagged :: "json_codec \<Rightarrow> fs \<Rightarrow> string \<Rightarrow> bool \<Rightarrow> paper list" where
  "load_tagged c fs output overwrite =
     (if overwrite then []
      else
        (case fs output of
           None \<Rightarrow> []
         | Some text \<Rightarrow> (case loads c text of None \<Rightarrow> [] | Some existing_papers \<Rightarrow> existing_papers)))"

definition tag_main :: "json_codec \<Rightarrow> (nat \<Rightarrow> service) \<Rightarrow> bool \<Rightarrow> io_fault \<Rightarrow> fs \<Rightarrow> string \<Rightarrow> string
    \<Rightarrow> fs list \<times> (error + unit)" where
  "tag_main c svcs overwrite fault fs input output =
     (case fs input of
        None \<Rightarrow> ([], Inl (SystemExit 1))
      | Some text \<Rightarrow>
     (case loads c text of
        None \<Rightarrow> ([], Inl JSONDecodeError)
      | Some all_papers \<Rightarrow>
     (case tag_annotate svcs overwrite all_papers (load_tagged c fs output overwrite) of
        (final_data, diags) \<Rightarrow> direct_write fault fs output (dumps c final_data))))"

section \<open>shuffle_papers.py\<close>

text \<open>
  \<open>shuffle_and_sort_papers\<close> reads the filtered papers, sorts them by \<open>published\<close>,
  descending, and writes them back to the same path.  Every exception is caught and
  reported, so the function always returns; what it reports is returned with the
  file-system states it went through.
\<close>

datatype shuffle_report = Sorted nat | FileNotFound | DecodeFailed | Unexpected error

definition shuffle_and_sort_papers :: "json_codec \<Rightarrow> io_fault \<Rightarrow> fs \<Rightarrow> string
    \<Rightarrow> fs list \<times> shuffle_report" where
  "shuffle_and_sort_papers c fault fs data_file_path =
     (case fs data_file_path of
        None \<Rightarrow> ([], FileNotFound)
      | Some text \<Rightarrow>
          (case loads c text of
             None \<Rightarrow> ([], DecodeFailed)
           | Some papers \<Rightarrow>
               (case direct_write fault fs data_file_path (dumps c (sort_desc published papers)) of
                  (tr, Inl e) \<Rightarrow> (tr, Unexpected e)
                | (tr, Inr u) \<Rightarrow> (tr, Sorted (length papers)))))"

section \<open>Auxiliary notions\<close>

text \<open>What a wrapper leaves behind for one item: the item and the diagnostics printed.\<close>

definition classify_outcome :: "service \<Rightarrow> paper \<Rightarrow> bool \<Rightarrow> paper \<times> diag list" where
  "classify_outcome svc item overwrite =
     (case classify_item svc item overwrite of
        Inl e \<Rightarrow> (item, [ClassificationFailed (title item) e])
      | Inr (item', label) \<Rightarrow> (item', []))"

definition tag_outcome :: "service \<Rightarrow> paper \<Rightarrow> paper \<times> diag list" where
  "tag_outcome svc item =
     (case tag_item svc item True of
        Inl e \<Rightarrow> (item\<lparr>tags := Some [''Error'']\<rparr>, [TaggingFailed (title item) e])
      | Inr item' \<Rightarrow> (item', []))"

text \<open>A tags list as the tagger writes it.\<close>

definition well_tagged :: "string list \<Rightarrow> bool" where
  "well_tagged ts = (ts \<noteq> [] \<and> distinct ts
     \<and> (set ts \<subseteq> set VALID_TAGS \<or> ts = [''Error'']))"

section \<open>Example data\<close>

definition mk_paper :: "string \<Rightarrow> string \<Rightarrow> paper" where
  "mk_paper u p = \<lparr> title = ''T'', url = u, abstract = ''A'', published = p,
     ai_for_hw = None, tags = None \<rparr>"

definition mk_result :: "string \<Rightarrow> string \<Rightarrow> arxiv_result" where
  "mk_result u p = \<lparr> res_title = ''T'', res_entry_id = u, res_summary = ''A'',
     res_published = p \<rparr>"

definition paper_X :: paper where
  "paper_X = mk_paper ''X'' ''2024-01-01T00:00:00Z''"

definition paper_Y :: paper where
  "paper_Y = mk_paper ''Y'' ''2024-03-01T00:00:00Z''"

definition paper_Old :: paper where
  "paper_Old = mk_paper ''O'' ''2023-01-01T00:00:00Z''"

text \<open>A codec for the examples: every file holds the one-record collection \<open>[paper_X]\<close>.\<close>

definition example_codec :: json_codec where
  "example_codec = \<lparr> dumps = (\<lambda>ps. concat (map url ps)), loads = (\<lambda>t. Some [paper_X]) \<rparr>"

definition example_queries :: "query_stream list" where
  "example_queries =
     [([mk_result ''Y'' ''2024-03-01T00:00:00Z'', mk_result ''X'' ''2024-01-01T00:00:00Z''],
       Exhausted)]"

text \<open>
  The spec's reading of the classifier's label: the response, compared without regard to
  case, starts with \<open>true\<close>.
\<close>

definition spec_starts_with_true :: "string \<Rightarrow> bool" where
  "spec_starts_with_true response = startswith (lower response) ''true''"

text \<open>
  The spec's reading of the tagger's result: the vocabulary entries that match at least one
  fragment, in the order of the vocabulary.
\<close>

definition spec_vocabulary_matches :: "string \<Rightarrow> string list" where
  "spec_vocabulary_matches result_str =
     filter (\<lambda>valid_tag. list_ex (\<lambda>raw_tag. tag_matches raw_tag valid_tag) (raw_tags result_str))
            VALID_TAGS"

text \<open>The first occurrence of every element, in order of appearance.\<close>

fun first_seen :: "'a list \<Rightarrow> 'a list" where
  "first_seen [] = []"
| "first_seen (x # xs) = x # filter (\<lambda>y. y \<noteq> x) (first_seen xs)"

text \<open>Services for the examples: one that always answers, one that always fails.\<close>

definition answers :: "string \<Rightarrow> service" where
  "answers response = (\<lambda>attempt. Content response)"

definition always_fails :: service where
  "always_fails = (\<lambda>attempt. ApiError ''rate limit'')"

text \<open>A service that fails \<open>n\<close> times and answers from then on.\<close>

definition answers_after :: "nat \<Rightarrow> string \<Rightarrow> service" where
  "answers_after n response =
     (\<lambda>attempt. if attempt \<le> n then ApiError ''rate limit'' else Content response)"

text \<open>
  A second codec for the examples: a file is the sequence of the urls of its records, and
  the letters \<open>X\<close>, \<open>Y\<close> and \<open>O\<close> are read back as the three example papers.
\<close>

definition paper_of_letter :: "char \<Rightarrow> paper list" where
  "paper_of_letter ch =
     (if ch = CHR ''X'' then [paper_X]
      else if ch = CHR ''Y'' then [paper_Y]
      else if ch = CHR ''O'' then [paper_Old]
      else [])"

definition letters_codec :: json_codec where
  "letters_codec =
     \<lparr> dumps = (\<lambda>ps. concat (map url ps)),
       loads = (\<lambda>t. Some (concat (map paper_of_letter t))) \<rparr>"

definition letters_fs :: fs where
  "letters_fs = (\<lambda>p. if p = ''in.json'' \<or> p = ''filter_papers.json'' then Some ''XY'' else None)"

definition example_fs :: fs where
  "example_fs = (\<lambda>p. if p = ''out.json'' \<or> p = ''in.json'' then Some ''X'' else None)"

section \<open>Deduplication and sorting: lemmas\<close>

lemma fold_dedup_step:
  "fold dedup_step xs (acc, seen) = (acc @ first_occurrences seen xs, seen \<union> url ` set xs)"
  by (induction xs arbitrary: acc seen) auto

lemma fold_run_query:
  "fold run_query qs (acc, seen) =
     (acc @ first_occurrences seen (concat (map fetch_papers qs)),
      seen \<union> url ` set (concat (map fetch_papers qs)))"
proof (induction qs arbitrary: acc seen)
  case Nil
  show ?case by simp
next
  case (Cons q qs)
  have fo_app: "\<And>seen xs ys. first_occurrences seen (xs @ ys) =
      first_occurrences seen xs @ first_occurrences (seen \<union> url ` set xs) ys"
  proof -
    fix seen :: "string set" and xs ys :: "paper list"
    show "first_occurrences seen (xs @ ys) =
      first_occurrences seen xs @ first_occurrences (seen \<union> url ` set xs) ys"
      by (induction xs arbitrary: seen) (auto simp: insert_absorb)
  qed
  have "run_query q (acc, seen) =
      (acc @ first_occurrences seen (fetch_papers q), seen \<union> url ` set (fetch_papers q))"
    by (simp add: run_query_def fold_dedup_step)
  then show ?case
    by (simp add: Cons.IH fo_app Un_assoc image_Un)
qed

lemma urls_first_occurrences:
  "url ` set (first_occurrences seen xs) = url ` set xs - seen"
  by (induction xs arbitrary: seen) auto

lemma distinct_first_occurrences:
  "distinct (map url (first_occurrences seen xs))"
proof (induction xs arbitrary: seen)
  case Nil show ?case by simp
next
  case (Cons x xs)
  show ?case using Cons.IH urls_first_occurrences[of "insert (url x) seen" xs]
    by auto
qed

lemma find_first_occurrences:
  "u \<notin> seen \<Longrightarrow> find (\<lambda>x. url x = u) (first_occurrences seen xs) = find (\<lambda>x. url x = u) xs"
proof (induction xs arbitrary: seen)
  case Nil show ?case by simp
next
  case (Cons x xs)
  show ?case
  proof (cases "url x \<in> seen")
    case True
    with Cons.prems have "url x \<noteq> u" by auto
    with True Cons show ?thesis by simp
  next
    case False
    with Cons show ?thesis by auto
  qed
qed

lemma mset_insort_desc: "mset (insort_desc f x xs) = add_mset x (mset xs)"
  by (induction xs) auto

lemma mset_sort_desc: "mset (sort_desc f xs) = mset xs"
  by (induction xs) (auto simp: sort_desc_def mset_insort_desc)

lemma set_insort_desc: "set (insort_desc f x xs) = insert x (set xs)"
  by (induction xs) auto

lemma descending_insort_desc:
  "descending f xs \<Longrightarrow> descending f (insort_desc f x xs)"
  by (induction xs) (auto simp: descending_def set_insort_desc)

lemma descending_sort_desc: "descending f (sort_desc f xs)"
proof (induction xs)
  case Nil show ?case by (simp add: sort_desc_def descending_def)
next
  case (Cons x xs)
  then show ?case using descending_insort_desc[of f "sort_desc f xs" x]
    by (simp add: sort_desc_def)
qed

lemma filter_insort_desc:
  "descending f xs \<Longrightarrow>
   filter (\<lambda>y. f y = k) (insort_desc f x xs) =
     (if f x = k then x # filter (\<lambda>y. f y = k) xs else filter (\<lambda>y. f y = k) xs)"
proof (induction xs)
  case Nil show ?case by simp
next
  case (Cons y ys)
  then have d: "descending f ys" and le: "\<forall>z\<in>set ys. f z \<le> f y"
    by (auto simp: descending_def)
  show ?case
  proof (cases "f y \<le> f x")
    case True then show ?thesis by simp
  next
    case False
    then have "f x < f y" by simp
    have nk: "f x = k \<Longrightarrow> f y \<noteq> k" using False by auto
    show ?thesis using False Cons.IH[OF d] nk by auto
  qed
qed

lemma filter_sort_desc:
  "filter (\<lambda>y. f y = k) (sort_desc f xs) = filter (\<lambda>y. f y = k) xs"
proof (induction xs)
  case Nil show ?case by (simp add: sort_desc_def)
next
  case (Cons x xs)
  have "sort_desc f (x # xs) = insort_desc f x (sort_desc f xs)"
    by (simp add: sort_desc_def)
  then show ?case using Cons filter_insort_desc[OF descending_sort_desc, of f k x xs]
    by simp
qed


lemma fold_merge_step:
  "fold (merge_step us) H (acc, n) =
     (acc @ filter (\<lambda>h. url h \<notin> us) H, n + length (filter (\<lambda>h. url h \<notin> us) H))"
  by (induction H arbitrary: acc n) auto

lemma merge_incremental_eq:
  "merge_incremental H P (url ` set P) = (new_records H P @ P, length (new_records H P))"
  by (simp add: merge_incremental_def fold_merge_step new_records_def)

lemma card_new_records:
  assumes "distinct (map url H)"
  shows "card (url ` set H - url ` set P) = length (new_records H P)"
proof -
  have d: "distinct (map url (new_records H P))"
    using assms by (simp add: new_records_def distinct_map_filter)
  have "url ` set (new_records H P) = url ` set H - url ` set P"
    by (auto simp: new_records_def)
  then have "card (url ` set H - url ` set P) = card (set (map url (new_records H P)))"
    by simp
  also have "\<dots> = length (map url (new_records H P))"
    using d by (rule distinct_card)
  finally show ?thesis by simp
qed

lemma accumulate_eq:
  "accumulate qs = (first_occurrences {} (concat (map fetch_papers qs)),
     url ` set (concat (map fetch_papers qs)))"
  using fold_run_query[of qs "[]" "{}"] by (simp add: accumulate_def)

lemma length_first_occurrences:
  "length (first_occurrences {} xs) = card (url ` set xs)"
  using distinct_card[OF distinct_first_occurrences[of "{}" xs]]
    urls_first_occurrences[of "{}" xs]
  by simp

lemma distinct_harvest: "distinct (map url (harvest qs))"
proof -
  have "mset (map url (harvest qs)) = mset (map url (fst (accumulate qs)))"
    by (simp add: harvest_def mset_sort_desc)
  moreover have "distinct (map url (fst (accumulate qs)))"
    by (simp add: accumulate_eq distinct_first_occurrences)
  ultimately show ?thesis
    by (metis distinct_count_atmost_1 set_mset_mset)
qed

lemma distinct_merge_incremental:
  assumes "distinct (map url H)" and "distinct (map url P)"
  shows "distinct (map url (fst (merge_incremental H P (url ` set P))))"
  using assms
  by (auto simp: merge_incremental_eq new_records_def distinct_map_filter)

lemma last_write_prefixes: "last (write_prefixes fs path text) = fs(path \<mapsto> text)"
  by (simp add: write_prefixes_def last_map del: upt_Suc)

lemma write_prefixes_nonempty: "write_prefixes fs path text \<noteq> []"
  by (simp add: write_prefixes_def del: upt_Suc)

lemma final_fs_direct_write:
  "final_fs fs (fst (direct_write NoFault fs path text)) = fs(path \<mapsto> text)"
  by (simp add: direct_write_def final_fs_def last_write_prefixes write_prefixes_nonempty)

lemma main_incremental_saves:
  assumes "load_existing c fs output = Inr (P, us)"
    and "new_records (harvest queries) P \<noteq> []"
  shows "final_fs fs (fst (arxiv_main c NoFault fs 1 output queries)) output
    = Some (dumps c (new_records (harvest queries) P @ P))"
proof -
  have us: "us = url ` set P"
    using assms(1) by (auto simp: load_existing_def split: option.splits)
  have "arxiv_main c NoFault fs 1 output queries
      = save_json c NoFault fs output (new_records (harvest queries) P @ P)"
    using assms us by (simp add: arxiv_main_def merge_incremental_eq)
  then show ?thesis
    by (simp add: save_json_def final_fs_direct_write)
qed

lemma example_load:
  "load_existing example_codec example_fs ''out.json'' = Inr ([paper_X], {''X''})"
  by (simp add: load_existing_def example_codec_def example_fs_def paper_X_def mk_paper_def)

section \<open>Parsing the model's response: lemmas\<close>

lemma of_char_lower_char:
  "(of_char (lower_char c) :: nat) =
     (if (65 \<le> (of_char c :: nat) \<and> (of_char c :: nat) \<le> 90)
        \<or> (192 \<le> (of_char c :: nat) \<and> (of_char c :: nat) \<le> 222 \<and> (of_char c :: nat) \<noteq> 215)
      then of_char c + 32 else of_char c)"
  by (auto simp: lower_char_def Let_def)

lemma lower_char_t: "lower_char c = CHR ''t'' \<longleftrightarrow> c = CHR ''t'' \<or> c = CHR ''T''"
proof -
  have "lower_char c = CHR ''t'' \<longleftrightarrow> (of_char (lower_char c) :: nat) = of_char (CHR ''t'')"
    by (simp only: of_char_eq_iff)
  also have "\<dots> \<longleftrightarrow> (of_char c :: nat) = 116 \<or> (of_char c :: nat) = 84"
    unfolding of_char_lower_char by auto
  also have "\<dots> \<longleftrightarrow> (of_char c :: nat) = of_char (CHR ''t'') \<or> (of_char c :: nat) = of_char (CHR ''T'')"
    by simp
  also have "\<dots> \<longleftrightarrow> c = CHR ''t'' \<or> c = CHR ''T''"
    by (simp only: of_char_eq_iff)
  finally show ?thesis .
qed

lemma startswith_t:
  "startswith (lower s) ''t'' \<longleftrightarrow> s \<noteq> [] \<and> hd s \<in> {CHR ''t'', CHR ''T''}"
proof (cases s)
  case Nil
  then show ?thesis by (simp add: startswith_def lower_def)
next
  case (Cons a list)
  have "CHR ''t'' = lower_char a \<longleftrightarrow> a = CHR ''t'' \<or> a = CHR ''T''"
    using lower_char_t[of a] by (simp only: eq_commute[of "CHR ''t''" "lower_char a"])
  with Cons show ?thesis by (simp add: startswith_def lower_def)
qed

lemma query_first_reply:
  "svc 1 = Content response \<Longrightarrow> query_loop post svc [1..<Suc MAX_RETRY] = Inr (post response)"
  by (simp add: MAX_RETRY_def upt_rec)

lemma query_first_content:
  assumes "1 \<le> a" and "a \<le> MAX_RETRY" and "svc a = Content response"
    and "\<forall>b. 1 \<le> b \<and> b < a \<longrightarrow> (\<exists>e. svc b = ApiError e)"
  shows "query_loop post svc [1..<Suc MAX_RETRY] = Inr (post response)"
proof -
  have l: "[1..<Suc MAX_RETRY] = [1, 2, 3]" by (simp add: MAX_RETRY_def upt_rec)
  from assms(1,2) have "a = 1 \<or> a = 2 \<or> a = 3"
    unfolding MAX_RETRY_def by arith
  then consider "a = 1" | "a = 2" | "a = 3" by blast
  then show ?thesis
  proof cases
    case 1
    with assms(3) show ?thesis unfolding l by simp
  next
    case 2
    with assms(4) obtain e1 where "svc 1 = ApiError e1" by force
    with 2 assms(3) show ?thesis unfolding l by (simp add: MAX_RETRY_def)
  next
    case 3
    with assms(4) obtain e1 where e1: "svc 1 = ApiError e1" by force
    from 3 assms(4) obtain e2 where e2: "svc 2 = ApiError e2" by force
    from 3 assms(3) e1 e2 show ?thesis unfolding l by (simp add: MAX_RETRY_def)
  qed
qed

lemma strip_keeps_head:
  assumes "\<not> is_space c"
  shows "strip (c # rest) \<noteq> [] \<and> hd (strip (c # rest)) = c"
proof -
  have "dropWhile is_space (rev rest @ [c]) = dropWhile is_space (rev rest) @ [c]
      \<or> dropWhile is_space (rev rest @ [c]) = [c]"
    using assms by (simp add: dropWhile_append)
  then obtain ys where "dropWhile is_space (rev rest @ [c]) = ys @ [c]"
    by (metis append_Nil)
  then show ?thesis using assms by (simp add: strip_def)
qed

lemma not_space_t: "\<not> is_space (CHR ''t'')" "\<not> is_space (CHR ''T'')"
  by (simp_all add: is_space_def)

lemma spec_true_imp_label:
  assumes "spec_starts_with_true response"
  shows "strip response \<noteq> [] \<and> hd (strip response) \<in> {CHR ''t'', CHR ''T''}"
proof -
  from assms obtain c rest where r: "response = c # rest" and "lower_char c = CHR ''t''"
    by (cases response) (auto simp: spec_starts_with_true_def startswith_def lower_def)
  then have c: "c = CHR ''t'' \<or> c = CHR ''T''" by (simp add: lower_char_t)
  then have "\<not> is_space c" using not_space_t by auto
  from strip_keeps_head[OF this, of rest] c r show ?thesis by auto
qed

lemma fold_append_new:
  "fold (\<lambda>x acc. if x \<in> set acc then acc else acc @ [x]) xs acc
     = acc @ filter (\<lambda>y. y \<notin> set acc) (first_seen xs)"
proof (induction xs arbitrary: acc)
  case Nil show ?case by simp
next
  case (Cons x xs)
  show ?case
  proof (cases "x \<in> set acc")
    case True
    have "filter (\<lambda>y. y \<notin> set acc) (filter (\<lambda>y. y \<noteq> x) (first_seen xs))
        = filter (\<lambda>y. y \<notin> set acc) (first_seen xs)"
      using True by (auto intro: filter_cong)
    with True Cons.IH[of acc] show ?thesis by simp
  next
    case False
    have "filter (\<lambda>y. y \<notin> set (acc @ [x])) (first_seen xs)
        = filter (\<lambda>y. y \<notin> set acc) (filter (\<lambda>y. y \<noteq> x) (first_seen xs))"
      by (auto intro: filter_cong)
    with False Cons.IH[of "acc @ [x]"] show ?thesis by simp
  qed
qed

lemma fold_scan_step:
  "fold (scan_step raw) vs found
     = fold (\<lambda>x acc. if x \<in> set acc then acc else acc @ [x]) (filter (tag_matches raw) vs) found"
  by (induction vs arbitrary: found) (auto simp: scan_step_def)

lemma fold_scan_raws:
  "fold (\<lambda>raw_tag. fold (scan_step raw_tag) vs) raws found
     = fold (\<lambda>x acc. if x \<in> set acc then acc else acc @ [x])
         (concat (map (\<lambda>raw. filter (tag_matches raw) vs) raws)) found"
  by (induction raws arbitrary: found) (simp_all add: fold_scan_step)

lemma scan_tags_eq:
  "scan_tags raws = first_seen (concat (map (\<lambda>raw. filter (tag_matches raw) VALID_TAGS) raws))"
  by (simp add: scan_tags_def fold_scan_raws fold_append_new)

lemma set_first_seen: "set (first_seen xs) = set xs"
  by (induction xs) auto

lemma distinct_first_seen: "distinct (first_seen xs)"
  by (induction xs) (auto simp: set_first_seen)

lemma set_scan_tags:
  "set (scan_tags raws) = {v \<in> set VALID_TAGS. \<exists>raw \<in> set raws. tag_matches raw v}"
  by (auto simp: scan_tags_eq set_first_seen)

lemma set_spec_vocabulary_matches:
  "set (spec_vocabulary_matches r) = set (scan_tags (raw_tags r))"
  by (auto simp: spec_vocabulary_matches_def set_scan_tags list_ex_iff)

lemma found_tags_of_eq:
  "found_tags_of r =
     (if spec_vocabulary_matches r = [] then [''Other'']
      else first_seen (concat (map (\<lambda>raw. filter (tag_matches raw) VALID_TAGS) (raw_tags r))))"
proof -
  have "scan_tags (raw_tags r) = [] \<longleftrightarrow> spec_vocabulary_matches r = []"
    using set_spec_vocabulary_matches[of r] by (metis set_empty)
  then show ?thesis
    by (simp add: found_tags_of_def Let_def scan_tags_eq)
qed

lemma distinct_found_tags_of: "distinct (found_tags_of r)"
  by (simp add: found_tags_of_eq distinct_first_seen)

lemma found_tags_of_nonempty: "found_tags_of r \<noteq> []"
  by (simp add: found_tags_of_def Let_def)

lemma found_tags_of_valid: "set (found_tags_of r) \<subseteq> set VALID_TAGS"
proof (cases "scan_tags (raw_tags r) = []")
  case True
  then show ?thesis by (simp add: found_tags_of_def VALID_TAGS_def)
next
  case False
  then show ?thesis using set_scan_tags[of "raw_tags r"] by (auto simp: found_tags_of_def)
qed

section \<open>Batches: lemmas\<close>

lemma collect_all_Inr: "collect (map Inr xs) = Inr xs"
  by (induction xs) auto

lemma classify_process_wrapper_Inr:
  "classify_process_wrapper svc item overwrite = Inr (classify_outcome svc item overwrite)"
  by (auto simp: classify_process_wrapper_def classify_outcome_def split: sum.splits)

lemma classify_batch_eq:
  "classify_batch svcs overwrite items
     = Inr (map (\<lambda>(k, item). classify_outcome (svcs k) item overwrite)
                (zip [0..<length items] items))"
proof -
  have "map (\<lambda>(k, item). classify_process_wrapper (svcs k) item overwrite)
            (zip [0..<length items] items)
      = map Inr (map (\<lambda>(k, item). classify_outcome (svcs k) item overwrite)
            (zip [0..<length items] items))"
    by (auto simp: classify_process_wrapper_Inr)
  then show ?thesis by (simp only: classify_batch_def collect_all_Inr)
qed

lemma classify_annotate_returns:
  "\<exists>r. classify_annotate svcs overwrite data diff = Inr r"
  by (simp add: classify_annotate_def classify_batch_eq Let_def)

lemma classify_outcome_failed:
  assumes "classify_query_model svc = Inl e" and "overwrite \<or> ai_for_hw item = None"
  shows "classify_outcome svc item overwrite = (item, [ClassificationFailed (title item) e])"
  using assms by (auto simp: classify_outcome_def classify_item_def)

lemma tag_process_wrapper_Inr: "tag_process_wrapper svc item = Inr (tag_outcome svc item)"
  by (auto simp: tag_process_wrapper_def tag_outcome_def split: sum.splits)

lemma tag_batch_eq:
  "tag_batch svcs items = map (\<lambda>(k, item). tag_outcome (svcs k) item) (zip [0..<length items] items)"
  by (auto simp: tag_batch_def tag_process_wrapper_Inr)

lemma tag_outcome_failed:
  assumes "tag_query_model svc = Inl e"
  shows "tag_outcome svc item = (item\<lparr>tags := Some [''Error'']\<rparr>, [TaggingFailed (title item) e])"
  using assms by (auto simp: tag_outcome_def tag_item_def)

lemma retries_exhausted:
  assumes "svc 1 = ApiError m1" and "svc 2 = ApiError m2" and "svc 3 = ApiError m3"
  shows "query_loop post svc [1..<Suc MAX_RETRY] = Inl (OpenAIError m3)"
proof -
  have "[1..<Suc MAX_RETRY] = [1, 2, 3]" by (simp add: MAX_RETRY_def upt_rec)
  then show ?thesis using assms by (simp add: MAX_RETRY_def)
qed

lemma other_exception:
  assumes "svc 1 = OtherError m"
  shows "query_loop post svc [1..<Suc MAX_RETRY] = Inl (OtherException m)"
  using assms by (simp add: MAX_RETRY_def upt_rec)

lemma tag_process_wrapper_cases:
  "(\<exists>e. tag_item svc item True = Inl e
        \<and> tag_process_wrapper svc item
            = Inr (item\<lparr>tags := Some [''Error'']\<rparr>, [TaggingFailed (title item) e]))
   \<or> (\<exists>r. tag_process_wrapper svc item = Inr (item\<lparr>tags := Some (found_tags_of r)\<rparr>, []))"
  by (auto simp: tag_process_wrapper_def tag_item_def split: sum.splits)

lemma well_tagged_found: "well_tagged (found_tags_of r)"
  by (simp add: well_tagged_def found_tags_of_nonempty distinct_found_tags_of
      found_tags_of_valid)

lemma well_tagged_error: "well_tagged [''Error'']"
  by (simp add: well_tagged_def)

lemma tag_process_wrapper_well_tagged:
  "\<exists>p ds ts. tag_process_wrapper svc item = Inr (p, ds) \<and> tags p = Some ts \<and> well_tagged ts
      \<and> url p = url item \<and> published p = published item"
  using tag_process_wrapper_cases[of svc item] well_tagged_found well_tagged_error
  by (elim disjE exE conjE) (simp_all)

lemma tag_batch_well_tagged:
  assumes "p \<in> set (map fst (tag_batch svcs items))"
  shows "\<exists>ts. tags p = Some ts \<and> well_tagged ts"
proof -
  from assms obtain k item where "p = fst (case tag_process_wrapper (svcs k) item of
      Inl e \<Rightarrow> (item, []) | Inr r \<Rightarrow> r)"
    by (auto simp: tag_batch_def)
  then show ?thesis
    using tag_process_wrapper_well_tagged[of "svcs k" item] by auto
qed

lemma four_tags_example:
  "found_tags_of ''Verification, Synthesis, P&R, Security''
     = [''Verification'', ''Synthesis'', ''P&R'', ''Security'']"
  by code_simp

lemma set_sort_desc: "set (sort_desc f xs) = set xs"
  using mset_sort_desc[of f xs] by (metis set_mset_mset)

section \<open>Writing files: lemmas\<close>

lemma write_prefixes_other:
  "s \<in> set (write_prefixes fs p text) \<Longrightarrow> q \<noteq> p \<Longrightarrow> s q = fs q"
  by (auto simp: write_prefixes_def simp del: upt_Suc)

lemma take_write_prefixes_other:
  "s \<in> set (take n (write_prefixes fs p text)) \<Longrightarrow> q \<noteq> p \<Longrightarrow> s q = fs q"
  by (meson in_set_takeD write_prefixes_other)

lemma take_Suc_write_prefixes_nonempty: "take (Suc n) (write_prefixes fs p text) \<noteq> []"
  using write_prefixes_nonempty[of fs p "text"] by (cases "write_prefixes fs p text") auto

lemma last_take_other:
  assumes "q \<noteq> p"
  shows "last (take (Suc n) (write_prefixes fs p text)) q = fs q"
  using take_write_prefixes_other[OF last_in_set[OF take_Suc_write_prefixes_nonempty] assms] .

lemma cleanup_other:
  "s' \<in> set (cleanup t s) \<Longrightarrow> q \<noteq> t \<Longrightarrow> s' q = s q"
  by (auto simp: cleanup_def split: if_splits)

lemma final_cleanup:
  "tr \<noteq> [] \<Longrightarrow> final_fs fs (tr @ cleanup t (last tr)) t = None"
  by (auto simp: cleanup_def final_fs_def)

lemma final_cleanup_other:
  "tr \<noteq> [] \<Longrightarrow> q \<noteq> t \<Longrightarrow> final_fs fs (tr @ cleanup t (last tr)) q = last tr q"
  by (auto simp: cleanup_def final_fs_def)

lemma safe_json_write_states:
  assumes "safe_json_write c fault fs data path = (tr, r)" and "s \<in> set tr"
  shows "s path = fs path \<or> (s = last tr \<and> r = Inr () \<and> s path = Some (dumps c data))"
proof -
  let ?t = "path @ ''.tmp''"
  let ?w = "write_prefixes fs ?t (dumps c data)"
  have ne: "path \<noteq> ?t" by simp
  have w: "\<And>s. s \<in> set ?w \<Longrightarrow> s path = fs path"
    using write_prefixes_other[OF _ ne] by blast
  have wt: "\<And>s n. s \<in> set (take n ?w) \<Longrightarrow> s path = fs path"
    using take_write_prefixes_other[OF _ ne] by blast
  have cl: "\<And>s s'. s' \<in> set (cleanup ?t s) \<Longrightarrow> s' path = s path"
    using cleanup_other[OF _ ne] by blast
  have lw: "last ?w path = fs path"
    using w[of "last ?w"] write_prefixes_nonempty[of fs ?t "dumps c data"] by simp
  have lt: "\<And>n. last (take (Suc n) ?w) path = fs path"
    using last_take_other[OF ne] by blast
  show ?thesis
  proof (cases fault)
    case NoFault
    with assms show ?thesis using w by (auto simp: safe_json_write_def Let_def)
  next
    case OpenFails
    with assms show ?thesis using cl by (auto simp: safe_json_write_def Let_def)
  next
    case (WriteFailsAfter n)
    show ?thesis
    proof (cases "n < length (dumps c data)")
      case True
      let ?tk = "take (Suc n) ?w"
      from True WriteFailsAfter assms have tr: "tr = ?tk @ cleanup ?t (last ?tk)"
        by (auto simp: safe_json_write_def Let_def)
      from assms(2) tr consider "s \<in> set ?tk" | "s \<in> set (cleanup ?t (last ?tk))"
        by auto
      then have "s path = fs path"
      proof cases
        case 1
        then show ?thesis by (rule wt)
      next
        case 2
        then have "s path = last ?tk path" by (rule cl)
        then show ?thesis by (simp only: lt)
      qed
      then show ?thesis by simp
    next
      case False
      with WriteFailsAfter assms show ?thesis using w
        by (auto simp: safe_json_write_def Let_def)
    qed
  next
    case RenameFails
    with assms have tr: "tr = ?w @ cleanup ?t (last ?w)"
      by (auto simp: safe_json_write_def Let_def)
    from assms(2) tr consider "s \<in> set ?w" | "s \<in> set (cleanup ?t (last ?w))"
      by auto
    then have "s path = fs path"
    proof cases
      case 1
      then show ?thesis by (rule w)
    next
      case 2
      then have "s path = last ?w path" by (rule cl)
      then show ?thesis by (simp only: lw)
    qed
    then show ?thesis by simp
  qed
qed

lemma safe_json_write_success:
  assumes "safe_json_write c fault fs data path = (tr, Inr u)"
  shows "final_fs fs tr path = Some (dumps c data) \<and> final_fs fs tr (path @ ''.tmp'') = None"
  using assms
  by (auto simp: safe_json_write_def Let_def final_fs_def split: io_fault.splits if_splits)

lemma safe_json_write_failure:
  assumes "safe_json_write c fault fs data path = (tr, Inl e)"
  shows "e = IOError \<and> final_fs fs tr path = fs path \<and> final_fs fs tr (path @ ''.tmp'') = None"
proof -
  let ?t = "path @ ''.tmp''"
  let ?w = "write_prefixes fs ?t (dumps c data)"
  have ne: "path \<noteq> ?t" by simp
  have wne: "?w \<noteq> []" by (rule write_prefixes_nonempty)
  have lw: "last ?w path = fs path"
    using write_prefixes_other[OF last_in_set[OF wne] ne] .
  show ?thesis
  proof (cases fault)
    case NoFault
    with assms show ?thesis by (simp add: safe_json_write_def Let_def)
  next
    case OpenFails
    with assms show ?thesis
      by (auto simp: safe_json_write_def Let_def final_fs_def cleanup_def split: if_splits)
  next
    case (WriteFailsAfter n)
    let ?tk = "take (Suc n) ?w"
    from WriteFailsAfter assms have tr: "tr = ?tk @ cleanup ?t (last ?tk)" and e: "e = IOError"
      by (auto simp: safe_json_write_def Let_def split: if_splits)
    have tne: "?tk \<noteq> []" by (rule take_Suc_write_prefixes_nonempty)
    have 1: "final_fs fs (?tk @ cleanup ?t (last ?tk)) ?t = None"
      using tne by (rule final_cleanup)
    have 2: "final_fs fs (?tk @ cleanup ?t (last ?tk)) path = last ?tk path"
      using tne ne by (rule final_cleanup_other)
    have 3: "last ?tk path = fs path"
      using ne by (rule last_take_other)
    from e 1 2 3 show ?thesis unfolding tr by simp
  next
    case RenameFails
    with assms have tr: "tr = ?w @ cleanup ?t (last ?w)" and e: "e = IOError"
      by (auto simp: safe_json_write_def Let_def)
    have 1: "final_fs fs (?w @ cleanup ?t (last ?w)) ?t = None"
      using wne by (rule final_cleanup)
    have 2: "final_fs fs (?w @ cleanup ?t (last ?w)) path = last ?w path"
      using wne ne by (rule final_cleanup_other)
    from e 1 2 lw show ?thesis unfolding tr by simp
  qed
qed

section \<open>Saved collections: lemmas\<close>

lemma descending_filter: "descending f xs \<Longrightarrow> descending f (filter P xs)"
  by (simp add: descending_def sorted_wrt_filter)

lemma arxiv_main_rebuild:
  "final_fs fs (fst (arxiv_main c NoFault fs 0 output qs)) output = Some (dumps c (harvest qs))"
  by (simp add: arxiv_main_def save_json_def final_fs_direct_write)

lemma descending_tag_annotate:
  "descending published (fst (tag_annotate svcs overwrite all_papers existing_papers))"
  by (simp add: tag_annotate_def Let_def descending_sort_desc)

lemma tag_main_saves:
  assumes "fs input = Some txt0" and "loads c txt0 = Some all_papers"
  shows "final_fs fs (fst (tag_main c svcs overwrite NoFault fs input output)) output
    = Some (dumps c (fst (tag_annotate svcs overwrite all_papers
                            (load_tagged c fs output overwrite))))"
  using assms by (simp add: tag_main_def final_fs_direct_write split: prod.splits)

lemma classify_outcome_keeps:
  "url (fst (classify_outcome svc item ow)) = url item
   \<and> published (fst (classify_outcome svc item ow)) = published item"
  by (auto simp: classify_outcome_def classify_item_def Let_def split: sum.splits option.splits if_splits)

lemma map_fst_outcomes_url:
  "map url (map fst (map (\<lambda>(k, item). classify_outcome (svcs k) item ow) (zip ks items)))
     = map url (map snd (zip ks items))"
  by (induction ks items rule: list_induct2') (auto simp: classify_outcome_keeps)

lemma map_fst_outcomes_published:
  "map published (map fst (map (\<lambda>(k, item). classify_outcome (svcs k) item ow) (zip ks items)))
     = map published (map snd (zip ks items))"
  by (induction ks items rule: list_induct2') (auto simp: classify_outcome_keeps)

lemma snd_zip_upt: "map snd (zip [0..<length xs] xs) = xs"
  by simp

lemma classify_annotate_diff:
  "\<exists>processed ds.
      classify_annotate svcs ow data (Some labeled) = Inr (labeled @ processed, ds)
      \<and> map url processed = map url (classify_select data (Some labeled) ow)
      \<and> map published processed = map published (classify_select data (Some labeled) ow)"
proof (cases "classify_select data (Some labeled) ow = []")
  case True
  then show ?thesis by (simp add: classify_annotate_def)
next
  case False
  let ?items = "classify_select data (Some labeled) ow"
  let ?rs = "map (\<lambda>(k, item). classify_outcome (svcs k) item ow) (zip [0..<length ?items] ?items)"
  have "classify_annotate svcs ow data (Some labeled)
      = Inr (labeled @ map fst ?rs, concat (map snd ?rs))"
    using False by (simp add: classify_annotate_def classify_batch_eq Let_def)
  moreover have "map url (map fst ?rs) = map url ?items"
    using map_fst_outcomes_url[of svcs ow "[0..<length ?items]" ?items] snd_zip_upt[of ?items]
    by simp
  moreover have "map published (map fst ?rs) = map published ?items"
    using map_fst_outcomes_published[of svcs ow "[0..<length ?items]" ?items] snd_zip_upt[of ?items]
    by simp
  ultimately show ?thesis by blast
qed

lemma classify_save_files:
  assumes "output_path \<noteq> filtered_output_path"
    and "output_path \<noteq> filtered_output_path @ ''.tmp''"
    and "filter positive final_data \<noteq> []"
  shows "final_fs fs (fst (classify_save c NoFault NoFault fs final_data output_path
            filtered_output_path)) output_path = Some (dumps c final_data)
    \<and> final_fs fs (fst (classify_save c NoFault NoFault fs final_data output_path
            filtered_output_path)) filtered_output_path
        = Some (dumps c (filter positive final_data))"
  using assms
  by (simp add: classify_save_def safe_json_write_def Let_def final_fs_def
      last_write_prefixes write_prefixes_nonempty)

lemma shuffle_sorts:
  assumes "fs path = Some txt0" and "loads c txt0 = Some papers"
  shows "final_fs fs (fst (shuffle_and_sort_papers c NoFault fs path)) path
     = Some (dumps c (sort_desc published papers))"
  using assms final_fs_direct_write[of fs path "dumps c (sort_desc published papers)"]
  by (simp add: shuffle_and_sort_papers_def direct_write_def split: prod.splits)

section \<open>Claims about the harvester\<close>

text \<open>
  C1.  In mode 1, with the persisted collection \<open>P\<close> and a harvested collection \<open>H\<close> of
  pairwise distinct urls, the merge loop returns the records of \<open>H\<close> whose url is not a url
  of \<open>P\<close>, in the order of \<open>H\<close>, followed by \<open>P\<close> as it was; the number \<open>k\<close> of new urls is the
  number of those records, the first \<open>k\<close> records of the result are the new ones and the
  rest is \<open>P\<close>.  When there is a new record, \<open>main\<close> leaves exactly that collection in the
  output file.
\<close>

theorem incremental_merge_new_first:
  assumes "distinct (map url H)"
    and "load_existing c fs output = Inr (P, us)"
  shows "merge_incremental H P us = (new_records H P @ P, length (new_records H P))
    \<and> new_records H P = filter (\<lambda>h. url h \<notin> url ` set P) H
    \<and> card (url ` set H - url ` set P) = length (new_records H P)
    \<and> take (card (url ` set H - url ` set P)) (fst (merge_incremental H P us))
        = new_records H P
    \<and> drop (card (url ` set H - url ` set P)) (fst (merge_incremental H P us)) = P
    \<and> (new_records (harvest queries) P \<noteq> [] \<longrightarrow>
         final_fs fs (fst (arxiv_main c NoFault fs 1 output queries)) output
           = Some (dumps c (new_records (harvest queries) P @ P)))"
proof -
  have us: "us = url ` set P"
    using assms(2) by (auto simp: load_existing_def split: option.splits)
  show ?thesis
    using card_new_records[OF assms(1), of P] main_incremental_saves[OF assms(2)]
    by (simp add: us merge_incremental_eq new_records_def)
qed

theorem incremental_merge_new_first_witness:
  "distinct (map url [paper_Y, paper_X])
   \<and> load_existing example_codec example_fs ''out.json'' = Inr ([paper_X], {''X''})
   \<and> new_records (harvest example_queries) [paper_X] \<noteq> []
   \<and> merge_incremental [paper_Y, paper_X] [paper_X] {''X''} = ([paper_Y, paper_X], 1)
   \<and> new_records [paper_Y, paper_X] [paper_X] = [paper_Y]
   \<and> final_fs example_fs (fst (arxiv_main example_codec NoFault example_fs 1 ''out.json''
         example_queries)) ''out.json'' = Some ''YX''"
proof -
  have d: "distinct (map url [paper_Y, paper_X])"
    by (simp add: paper_X_def paper_Y_def mk_paper_def)
  have n: "new_records [paper_Y, paper_X] [paper_X] = [paper_Y]"
    by (simp add: new_records_def paper_X_def paper_Y_def mk_paper_def)
  have h: "harvest example_queries = [paper_Y, paper_X]"
    by code_simp
  have ne: "new_records (harvest example_queries) [paper_X] \<noteq> []"
    unfolding h n by simp
  note t = incremental_merge_new_first[OF d example_load, of example_queries]
  have m: "merge_incremental [paper_Y, paper_X] [paper_X] {''X''}
      = (new_records [paper_Y, paper_X] [paper_X] @ [paper_X],
         length (new_records [paper_Y, paper_X] [paper_X]))"
    using t by (rule conjunct1)
  have m': "merge_incremental [paper_Y, paper_X] [paper_X] {''X''} = ([paper_Y, paper_X], 1)"
    unfolding m n by simp
  have "final_fs example_fs (fst (arxiv_main example_codec NoFault example_fs 1 ''out.json''
         example_queries)) ''out.json''
      = Some (dumps example_codec (new_records (harvest example_queries) [paper_X] @ [paper_X]))"
    using t ne by blast
  then have f: "final_fs example_fs (fst (arxiv_main example_codec NoFault example_fs 1 ''out.json''
         example_queries)) ''out.json'' = Some ''YX''"
    unfolding h n by (simp add: example_codec_def paper_X_def paper_Y_def mk_paper_def)
  show ?thesis using d example_load ne m' n f by (intro conjI)
qed

text \<open>
  C2.  Whatever the queries return, the accumulated list holds the first occurrence of
  every url, in order of appearance: its urls are pairwise distinct, its length is the
  number of distinct urls seen, and the record kept for a url is the first one yielded with
  it.  The harvest is that list sorted by \<open>published\<close>, descending; records with the same
  \<open>published\<close> keep their relative order.
\<close>

theorem harvest_dedup_sorted:
  "fst (accumulate qs) = first_occurrences {} (concat (map fetch_papers qs))
   \<and> distinct (map url (fst (accumulate qs)))
   \<and> length (fst (accumulate qs)) = card (url ` set (concat (map fetch_papers qs)))
   \<and> find (\<lambda>x. url x = u) (fst (accumulate qs))
       = find (\<lambda>x. url x = u) (concat (map fetch_papers qs))
   \<and> descending published (harvest qs)
   \<and> mset (harvest qs) = mset (fst (accumulate qs))
   \<and> filter (\<lambda>x. published x = k) (harvest qs)
       = filter (\<lambda>x. published x = k) (fst (accumulate qs))"
  by (simp add: accumulate_eq distinct_first_occurrences length_first_occurrences
      find_first_occurrences harvest_def descending_sort_desc mset_sort_desc filter_sort_desc)

text \<open>
  C6.  In mode 1, when every harvested url is already a url of the persisted collection,
  \<open>main\<close> goes through no file-system state of its own: nothing is written and the file
  system at the end is the one at the start.
\<close>

theorem incremental_noop:
  assumes "load_existing c fs output = Inr (P, us)"
    and "url ` set (harvest queries) \<subseteq> url ` set P"
  shows "arxiv_main c fault fs 1 output queries = ([], Inr ())
    \<and> final_fs fs (fst (arxiv_main c fault fs 1 output queries)) = fs"
proof -
  have us: "us = url ` set P"
    using assms(1) by (auto simp: load_existing_def split: option.splits)
  have "new_records (harvest queries) P = []"
    using assms(2) by (auto simp: new_records_def filter_empty_conv)
  then have m: "merge_incremental (harvest queries) P (url ` set P) = (P, 0)"
    by (simp add: merge_incremental_eq)
  have "arxiv_main c fault fs 1 output queries = ([], Inr ())"
    using assms(1) us m by (simp add: arxiv_main_def)
  then show ?thesis by (simp add: final_fs_def)
qed

theorem incremental_noop_witness:
  "load_existing example_codec example_fs ''out.json'' = Inr ([paper_X], {''X''})
   \<and> url ` set (harvest [([mk_result ''X'' ''2024-01-01T00:00:00Z''], Exhausted)])
       \<subseteq> url ` set [paper_X]
   \<and> arxiv_main example_codec (WriteFailsAfter 0) example_fs 1 ''out.json''
       [([mk_result ''X'' ''2024-01-01T00:00:00Z''], Exhausted)] = ([], Inr ())"
proof -
  have h: "harvest [([mk_result ''X'' ''2024-01-01T00:00:00Z''], Exhausted)] = [paper_X]"
    by code_simp
  have s: "url ` set (harvest [([mk_result ''X'' ''2024-01-01T00:00:00Z''], Exhausted)])
      \<subseteq> url ` set [paper_X]"
    unfolding h by simp
  show ?thesis
    using example_load s incremental_noop[OF example_load s, of "WriteFailsAfter 0"]
    by (intro conjI) simp_all
qed

section \<open>Claims about the response parsers\<close>

text \<open>
  C8 (as amended).  Whatever attempt within \<open>MAX_RETRY\<close> brings the response (the
  attempts before it having failed with an \<open>OpenAIError\<close>), the label that
  \<open>classify_item\<close> stores and returns is true exactly when the response, with the
  surrounding whitespace stripped, begins with the letter \<open>t\<close> or \<open>T\<close>.  So every
  response that begins with \<open>true\<close> in any case is labelled true, and a paper without a
  label is treated the same with or without \<open>--overwrite\<close>.
\<close>

theorem classify_label_first_letter:
  assumes "1 \<le> a" and "a \<le> MAX_RETRY" and "svc a = Content response"
    and "\<forall>b. 1 \<le> b \<and> b < a \<longrightarrow> (\<exists>e. svc b = ApiError e)"
  shows "(classify_item svc item True = Inr (item\<lparr>ai_for_hw := Some label\<rparr>, label)
      \<longleftrightarrow> (label \<longleftrightarrow> strip response \<noteq> [] \<and> hd (strip response) \<in> {CHR ''t'', CHR ''T''}))
    \<and> (spec_starts_with_true response \<longrightarrow>
         classify_item svc item True = Inr (item\<lparr>ai_for_hw := Some True\<rparr>, True))
    \<and> (ai_for_hw item = None \<longrightarrow>
         classify_item svc item False = classify_item svc item True)"
proof -
  have q: "classify_query_model svc = Inr (lower (strip response))"
    using query_first_content[where svc = svc and response = response and a = a
        and post = "\<lambda>c. lower (strip c)", OF assms]
    by (simp add: classify_query_model_def)
  have 1: "classify_item svc item True = Inr (item\<lparr>ai_for_hw := Some label\<rparr>, label)
      \<longleftrightarrow> (label \<longleftrightarrow> strip response \<noteq> [] \<and> hd (strip response) \<in> {CHR ''t'', CHR ''T''})"
    using q by (auto simp: classify_item_def startswith_t Let_def)
  have 2: "spec_starts_with_true response \<longrightarrow>
         classify_item svc item True = Inr (item\<lparr>ai_for_hw := Some True\<rparr>, True)"
    using q spec_true_imp_label[of response]
    by (auto simp: classify_item_def startswith_t Let_def)
  have 3: "ai_for_hw item = None \<longrightarrow>
         classify_item svc item False = classify_item svc item True"
    by (simp add: classify_item_def)
  from 1 2 3 show ?thesis by (intro conjI)
qed

theorem classify_label_first_letter_witness:
  "(1::nat) \<le> 2 \<and> 2 \<le> MAX_RETRY
   \<and> answers_after 1 ''True.'' 2 = Content ''True.''
   \<and> answers_after 1 ''True.'' 1 = ApiError ''rate limit''
   \<and> spec_starts_with_true ''True.''
   \<and> ai_for_hw paper_X = None
   \<and> classify_item (answers_after 1 ''True.'') paper_X False
       = Inr (paper_X\<lparr>ai_for_hw := Some True\<rparr>, True)
   \<and> classify_item (answers_after 1 ''no'') paper_X True
       = Inr (paper_X\<lparr>ai_for_hw := Some False\<rparr>, False)"
proof -
  have h1: "(1::nat) \<le> 2" by simp
  have h2: "2 \<le> MAX_RETRY" by (simp add: MAX_RETRY_def)
  have a: "answers_after 1 ''True.'' 2 = Content ''True.''" by (simp add: answers_after_def)
  have f: "\<forall>b. 1 \<le> b \<and> b < 2 \<longrightarrow> (\<exists>e. answers_after 1 ''True.'' b = ApiError e)"
    by (simp add: answers_after_def)
  have a': "answers_after 1 ''no'' 2 = Content ''no''" by (simp add: answers_after_def)
  have f': "\<forall>b. 1 \<le> b \<and> b < 2 \<longrightarrow> (\<exists>e. answers_after 1 ''no'' b = ApiError e)"
    by (simp add: answers_after_def)
  have s: "spec_starts_with_true ''True.''" by code_simp
  have n: "ai_for_hw paper_X = None" by (simp add: paper_X_def mk_paper_def)
  have sn: "strip ''no'' = ''no''" by code_simp
  note t = classify_label_first_letter[where svc = "answers_after 1 ''True.''"
      and response = "''True.''" and item = paper_X and label = True and a = 2, OF h1 h2 a f]
  have r1: "classify_item (answers_after 1 ''True.'') paper_X False
      = Inr (paper_X\<lparr>ai_for_hw := Some True\<rparr>, True)"
    using t s n by simp
  note u = classify_label_first_letter[where svc = "answers_after 1 ''no''"
      and response = "''no''" and item = paper_X and label = False and a = 2, OF h1 h2 a' f']
  have r2: "classify_item (answers_after 1 ''no'') paper_X True
      = Inr (paper_X\<lparr>ai_for_hw := Some False\<rparr>, False)"
    using u unfolding sn by simp
  have g: "answers_after 1 ''True.'' 1 = ApiError ''rate limit''"
    by (simp add: answers_after_def)
  from h1 h2 a g s n r1 r2 show ?thesis by (intro conjI)
qed

text \<open>
  C8 as stated fails: the response \<open>tag\<close> does not start with \<open>true\<close>, yet it is
  labelled true.
\<close>

theorem classify_label_counterexample:
  "classify_item (answers ''tag'') paper_X True = Inr (paper_X\<lparr>ai_for_hw := Some True\<rparr>, True)
   \<and> \<not> spec_starts_with_true ''tag''"
  by code_simp

text \<open>
  C9 (as amended).  The tags found are the vocabulary entries whose lowercase form occurs
  in the lowercase form of at least one fragment, without duplicates, in the order in which
  the scan first meets them: fragment by fragment from the left and, within a fragment, in
  the order of the vocabulary.  With no such entry the result is \<open>["Other"]\<close>.
\<close>

theorem tags_first_match_order:
  "found_tags_of r =
     (if spec_vocabulary_matches r = [] then [''Other'']
      else first_seen (concat (map (\<lambda>raw. filter (tag_matches raw) VALID_TAGS) (raw_tags r))))
   \<and> distinct (found_tags_of r)
   \<and> (spec_vocabulary_matches r \<noteq> [] \<longrightarrow>
        set (found_tags_of r) = set (spec_vocabulary_matches r))
   \<and> set (spec_vocabulary_matches r)
       = {v \<in> set VALID_TAGS. \<exists>raw \<in> set (raw_tags r). contains (lower raw) (lower v)}"
proof -
  have "spec_vocabulary_matches r \<noteq> [] \<longrightarrow>
        set (found_tags_of r) = set (spec_vocabulary_matches r)"
    by (simp add: found_tags_of_eq set_first_seen set_spec_vocabulary_matches scan_tags_eq)
  moreover have "set (spec_vocabulary_matches r)
       = {v \<in> set VALID_TAGS. \<exists>raw \<in> set (raw_tags r). contains (lower raw) (lower v)}"
    by (simp add: set_spec_vocabulary_matches set_scan_tags tag_matches_def)
  ultimately show ?thesis
    using found_tags_of_eq[of r] distinct_found_tags_of[of r] by blast
qed

theorem tags_first_match_order_witness:
  "spec_vocabulary_matches ''Verification, Code Generation'' \<noteq> []
   \<and> found_tags_of ''Verification, Code Generation'' = [''Verification'', ''Code Generation'']"
proof -
  have v: "spec_vocabulary_matches ''Verification, Code Generation''
      = [''Verification'', ''Code Generation'']"
    by code_simp
  then have ne: "spec_vocabulary_matches ''Verification, Code Generation'' \<noteq> []" by simp
  have e: "(if spec_vocabulary_matches ''Verification, Code Generation'' = [] then [''Other'']
      else first_seen (concat (map (\<lambda>raw. filter (tag_matches raw) VALID_TAGS)
             (raw_tags ''Verification, Code Generation''))))
      = [''Verification'', ''Code Generation'']"
    by code_simp
  have "found_tags_of ''Verification, Code Generation'' =
     (if spec_vocabulary_matches ''Verification, Code Generation'' = [] then [''Other'']
      else first_seen (concat (map (\<lambda>raw. filter (tag_matches raw) VALID_TAGS)
             (raw_tags ''Verification, Code Generation''))))"
    using tags_first_match_order[of "''Verification, Code Generation''"] by (rule conjunct1)
  then have "found_tags_of ''Verification, Code Generation''
      = [''Verification'', ''Code Generation'']"
    by (simp only: e)
  with ne show ?thesis by (intro conjI)
qed

text \<open>
  C9 as stated fails: for the response \<open>Code Generation, Verification\<close> the tags come
  out in the order of the fragments, not in the order of the vocabulary.
\<close>

theorem tags_vocabulary_order_counterexample:
  "found_tags_of ''Code Generation, Verification'' = [''Code Generation'', ''Verification'']
   \<and> spec_vocabulary_matches ''Code Generation, Verification''
       = [''Verification'', ''Code Generation'']"
  by code_simp

section \<open>Claims about the annotation batches\<close>

text \<open>
  C7 (as amended).  When the call for one record of a batch fails for good, the classifier
  leaves that record exactly as it was (so without \<open>ai_for_hw\<close> if it had none) and the
  tagger gives it the tags \<open>["Error"]\<close>; a diagnostic with the record's title is produced;
  every record of the batch gets the result its own wrapper gives it; and the batch, and
  with it the whole annotation, returns normally.
\<close>

theorem partial_failure_contained:
  assumes "k < length items"
    and "classify_query_model (svcs k) = Inl e"
    and "overwrite \<or> ai_for_hw (items ! k) = None"
    and "k' < length titems"
    and "tag_query_model (tsvcs k') = Inl e'"
  shows "(\<exists>rs. classify_batch svcs overwrite items = Inr rs \<and> length rs = length items
         \<and> rs ! k = (items ! k, [ClassificationFailed (title (items ! k)) e])
         \<and> (\<forall>j < length items.
               classify_process_wrapper (svcs j) (items ! j) overwrite = Inr (rs ! j)))
    \<and> length (tag_batch tsvcs titems) = length titems
    \<and> tag_batch tsvcs titems ! k'
        = ((titems ! k')\<lparr>tags := Some [''Error'']\<rparr>, [TaggingFailed (title (titems ! k')) e'])
    \<and> (\<forall>j < length titems.
          tag_process_wrapper (tsvcs j) (titems ! j) = Inr (tag_batch tsvcs titems ! j))
    \<and> (\<exists>r. classify_annotate svcs overwrite data diff = Inr r)"
proof -
  let ?rs = "map (\<lambda>(k, item). classify_outcome (svcs k) item overwrite)
                (zip [0..<length items] items)"
  have c1: "classify_batch svcs overwrite items = Inr ?rs" by (rule classify_batch_eq)
  have c2: "length ?rs = length items" by simp
  have c3: "?rs ! k = (items ! k, [ClassificationFailed (title (items ! k)) e])"
    using assms(1) classify_outcome_failed[OF assms(2,3)] by simp
  have c4: "\<forall>j < length items.
      classify_process_wrapper (svcs j) (items ! j) overwrite = Inr (?rs ! j)"
    by (simp add: classify_process_wrapper_Inr)
  have t1: "length (tag_batch tsvcs titems) = length titems" by (simp add: tag_batch_eq)
  have t2: "tag_batch tsvcs titems ! k'
        = ((titems ! k')\<lparr>tags := Some [''Error'']\<rparr>, [TaggingFailed (title (titems ! k')) e'])"
    using assms(4) tag_outcome_failed[OF assms(5)] by (simp add: tag_batch_eq)
  have t3: "\<forall>j < length titems.
      tag_process_wrapper (tsvcs j) (titems ! j) = Inr (tag_batch tsvcs titems ! j)"
    by (simp add: tag_batch_eq tag_process_wrapper_Inr)
  from c1 c2 c3 c4 have "\<exists>rs. classify_batch svcs overwrite items = Inr rs \<and> length rs = length items
         \<and> rs ! k = (items ! k, [ClassificationFailed (title (items ! k)) e])
         \<and> (\<forall>j < length items.
               classify_process_wrapper (svcs j) (items ! j) overwrite = Inr (rs ! j))"
    by blast
  with t1 t2 t3 classify_annotate_returns[of svcs overwrite data diff] show ?thesis
    by (intro conjI)
qed

theorem partial_failure_contained_witness:
  "(0::nat) < length [paper_X, paper_Y]
   \<and> classify_query_model always_fails = Inl (OpenAIError ''rate limit'')
   \<and> (False \<or> ai_for_hw ([paper_X, paper_Y] ! 0) = None)
   \<and> tag_query_model always_fails = Inl (OpenAIError ''rate limit'')
   \<and> tag_batch (\<lambda>k. if k = 0 then always_fails else answers ''Testing'') [paper_X, paper_Y] ! 0
       = (paper_X\<lparr>tags := Some [''Error'']\<rparr>, [TaggingFailed ''T'' (OpenAIError ''rate limit'')])"
proof -
  let ?svcs = "\<lambda>k::nat. if k = 0 then always_fails else answers ''true''"
  let ?tsvcs = "\<lambda>k::nat. if k = 0 then always_fails else answers ''Testing''"
  have l: "(0::nat) < length [paper_X, paper_Y]" by simp
  have q: "classify_query_model always_fails = Inl (OpenAIError ''rate limit'')" by code_simp
  have q': "classify_query_model (?svcs 0) = Inl (OpenAIError ''rate limit'')"
    using q by simp
  have n: "False \<or> ai_for_hw ([paper_X, paper_Y] ! 0) = None"
    by (simp add: paper_X_def mk_paper_def)
  have t: "tag_query_model always_fails = Inl (OpenAIError ''rate limit'')" by code_simp
  have t': "tag_query_model (?tsvcs 0) = Inl (OpenAIError ''rate limit'')"
    using t by simp
  note inst = partial_failure_contained[where svcs = ?svcs and tsvcs = ?tsvcs
      and items = "[paper_X, paper_Y]" and titems = "[paper_X, paper_Y]"
      and k = 0 and k' = 0 and overwrite = False, OF l q' n l t']
  have "tag_batch ?tsvcs [paper_X, paper_Y] ! 0
      = (([paper_X, paper_Y] ! 0)\<lparr>tags := Some [''Error'']\<rparr>,
         [TaggingFailed (title ([paper_X, paper_Y] ! 0)) (OpenAIError ''rate limit'')])"
    using inst by blast
  then have "tag_batch ?tsvcs [paper_X, paper_Y] ! 0
      = (paper_X\<lparr>tags := Some [''Error'']\<rparr>, [TaggingFailed ''T'' (OpenAIError ''rate limit'')])"
    by (simp add: paper_X_def mk_paper_def)
  with l q n t show ?thesis by (intro conjI)
qed

text \<open>
  C7 as stated fails for the classifier: under \<open>--overwrite\<close> a record that already has
  \<open>ai_for_hw\<close> keeps it when its call fails, so it is not left without the field.
\<close>

theorem partial_failure_counterexample:
  "classify_query_model always_fails = Inl (OpenAIError ''rate limit'')
   \<and> classify_batch (\<lambda>k. always_fails) True [paper_X\<lparr>ai_for_hw := Some True\<rparr>]
       = Inr [(paper_X\<lparr>ai_for_hw := Some True\<rparr>,
               [ClassificationFailed ''T'' (OpenAIError ''rate limit'')])]"
  by code_simp

text \<open>
  C10 (as amended).  Every record of the tagger's final data is a record of the existing
  output, unchanged, or carries a tags list that is non-empty, has no duplicates, and
  either consists of vocabulary entries or is the list \<open>["Error"]\<close>.
\<close>

theorem tags_closed_or_error:
  assumes "p \<in> set (fst (tag_annotate svcs overwrite all_papers existing_papers))"
  shows "p \<in> set existing_papers
    \<or> (\<exists>ts. tags p = Some ts \<and> ts \<noteq> [] \<and> distinct ts
          \<and> (set ts \<subseteq> set VALID_TAGS \<or> ts = [''Error'']))"
proof (cases "p \<in> set existing_papers")
  case True
  then show ?thesis by simp
next
  case False
  with assms have "p \<in> set (map fst (tag_batch svcs (tag_select all_papers existing_papers overwrite)))"
    by (auto simp: tag_annotate_def Let_def set_sort_desc split: if_splits)
  from tag_batch_well_tagged[OF this] show ?thesis
    by (auto simp: well_tagged_def)
qed

theorem tags_closed_or_error_witness:
  "paper_X\<lparr>tags := Some [''Testing'']\<rparr>
     \<in> set (fst (tag_annotate (\<lambda>k. answers ''Testing'') True [paper_X] []))
   \<and> (paper_X\<lparr>tags := Some [''Testing'']\<rparr> \<in> set ([] :: paper list)
      \<or> (\<exists>ts. tags (paper_X\<lparr>tags := Some [''Testing'']\<rparr>) = Some ts \<and> ts \<noteq> [] \<and> distinct ts
            \<and> (set ts \<subseteq> set VALID_TAGS \<or> ts = [''Error''])))"
proof -
  have e: "fst (tag_annotate (\<lambda>k. answers ''Testing'') True [paper_X] [])
      = [paper_X\<lparr>tags := Some [''Testing'']\<rparr>]"
    by code_simp
  have m: "paper_X\<lparr>tags := Some [''Testing'']\<rparr>
     \<in> set (fst (tag_annotate (\<lambda>k. answers ''Testing'') True [paper_X] []))"
    unfolding e by simp
  from m tags_closed_or_error[OF m] show ?thesis by (intro conjI)
qed

text \<open>
  C10 as stated fails: a failed call gives the tags \<open>["Error"]\<close>, and \<open>Error\<close> is not
  an entry of the vocabulary.
\<close>

theorem tags_closed_counterexample:
  "fst (tag_annotate (\<lambda>k. always_fails) True [paper_X] [])
     = [paper_X\<lparr>tags := Some [''Error'']\<rparr>]
   \<and> ''Error'' \<notin> set VALID_TAGS"
  by code_simp

section \<open>Claims about saved collections\<close>

text \<open>
  C5 (as amended).  A save through \<open>safe_json_write\<close>, which the classifier uses for its
  labeled and filtered outputs, writes to \<open>path + ".tmp"\<close> and then renames: in every
  state the save goes through, the file at \<open>path\<close> is what it was before, except in the
  last state of a successful save, where it holds the new text; a successful save leaves no
  temporary file; a failed save raises, leaves the file at \<open>path\<close> as it was and leaves no
  temporary file.
\<close>

theorem safe_json_write_atomic:
  assumes "safe_json_write c fault fs data path = (tr, r)"
  shows "(\<forall>s \<in> set tr. s path = fs path
            \<or> (s = last tr \<and> r = Inr () \<and> s path = Some (dumps c data)))
    \<and> (r = Inr () \<longrightarrow>
          final_fs fs tr path = Some (dumps c data) \<and> final_fs fs tr (path @ ''.tmp'') = None)
    \<and> (\<forall>e. r = Inl e \<longrightarrow>
          e = IOError \<and> final_fs fs tr path = fs path \<and> final_fs fs tr (path @ ''.tmp'') = None)
    \<and> (fault = NoFault \<longrightarrow> r = Inr ())"
proof -
  have 1: "\<forall>s \<in> set tr. s path = fs path
            \<or> (s = last tr \<and> r = Inr () \<and> s path = Some (dumps c data))"
    using safe_json_write_states[OF assms] by blast
  have 2: "r = Inr () \<longrightarrow>
          final_fs fs tr path = Some (dumps c data) \<and> final_fs fs tr (path @ ''.tmp'') = None"
    using safe_json_write_success[of c fault fs data path tr "()"] assms by blast
  have 3: "\<forall>e. r = Inl e \<longrightarrow>
          e = IOError \<and> final_fs fs tr path = fs path \<and> final_fs fs tr (path @ ''.tmp'') = None"
    using safe_json_write_failure[of c fault fs data path tr] assms by blast
  have 4: "fault = NoFault \<longrightarrow> r = Inr ()"
    using assms by (auto simp: safe_json_write_def Let_def)
  from 1 2 3 4 show ?thesis by (intro conjI)
qed

theorem safe_json_write_atomic_witness:
  "safe_json_write example_codec RenameFails example_fs [paper_Y] ''out.json''
     = (fst (safe_json_write example_codec RenameFails example_fs [paper_Y] ''out.json''),
        Inl IOError)
   \<and> final_fs example_fs
        (fst (safe_json_write example_codec RenameFails example_fs [paper_Y] ''out.json''))
        ''out.json'' = Some ''X''
   \<and> final_fs example_fs
        (fst (safe_json_write example_codec RenameFails example_fs [paper_Y] ''out.json''))
        ''out.json.tmp'' = None"
proof -
  let ?tr = "fst (safe_json_write example_codec RenameFails example_fs [paper_Y] ''out.json'')"
  have r: "snd (safe_json_write example_codec RenameFails example_fs [paper_Y] ''out.json'')
      = Inl IOError"
    by (simp add: safe_json_write_def Let_def)
  have h: "safe_json_write example_codec RenameFails example_fs [paper_Y] ''out.json''
      = (?tr, Inl IOError)"
    using r by (metis prod.collapse)
  have x: "example_fs ''out.json'' = Some ''X''" by (simp add: example_fs_def)
  have "final_fs example_fs ?tr ''out.json'' = example_fs ''out.json''
      \<and> final_fs example_fs ?tr (''out.json'' @ ''.tmp'') = None"
    using safe_json_write_atomic[OF h] by blast
  with h x show ?thesis by simp
qed

text \<open>
  C5 as stated fails: the tagger (like the harvester) writes straight to the output path.
  When its write fails after the file was opened, the previous output is gone, the file is
  empty, and no temporary file was involved.
\<close>

theorem direct_write_counterexample:
  "(case tag_main example_codec (\<lambda>k. answers ''Testing'') False (WriteFailsAfter 0) example_fs
           ''in.json'' ''out.json'' of
      (tr, r) \<Rightarrow> r = Inl IOError \<and> final_fs example_fs tr ''out.json'' = Some ''''
                 \<and> final_fs example_fs tr ''out.json.tmp'' = None)
   \<and> example_fs ''out.json'' = Some ''X''"
  by code_simp

text \<open>
  C4 (as amended).  The harvest, which mode 0 saves as it is, is in descending order of
  \<open>published\<close>, and so are the final data that the tagger saves and the filtered papers
  as \<open>shuffle_papers.py\<close> writes them back.  The incremental merge output is the new
  records, in descending order among themselves, followed by the persisted records.  The
  classifier does not sort: run against a labeled file it saves that file's records in
  their order followed by the selected input records in input order, and its filtered output
  is the subsequence of the saved records with a true label.
\<close>

theorem saved_order:
  "descending published (harvest qs)
   \<and> final_fs fs (fst (arxiv_main c NoFault fs 0 outp qs)) outp = Some (dumps c (harvest qs))
   \<and> fst (merge_incremental (harvest qs) P (url ` set P)) = new_records (harvest qs) P @ P
   \<and> descending published (new_records (harvest qs) P)
   \<and> descending published (fst (tag_annotate svcs overwrite all_papers existing_papers))
   \<and> (fs inp = Some txt0 \<and> loads c txt0 = Some all_papers \<longrightarrow>
        final_fs fs (fst (tag_main c svcs overwrite NoFault fs inp outp)) outp
          = Some (dumps c (fst (tag_annotate svcs overwrite all_papers
                                  (load_tagged c fs outp overwrite)))))
   \<and> descending published (sort_desc published papers)
   \<and> (fs data_file_path = Some txt1 \<and> loads c txt1 = Some papers \<longrightarrow>
        final_fs fs (fst (shuffle_and_sort_papers c NoFault fs data_file_path)) data_file_path
          = Some (dumps c (sort_desc published papers)))
   \<and> (\<exists>processed ds.
          classify_annotate svcs overwrite data (Some labeled_data)
            = Inr (labeled_data @ processed, ds)
          \<and> map url processed = map url (classify_select data (Some labeled_data) overwrite)
          \<and> map published processed
              = map published (classify_select data (Some labeled_data) overwrite))
   \<and> (output_path \<noteq> filtered_output_path
        \<and> output_path \<noteq> filtered_output_path @ ''.tmp''
        \<and> filter positive final_data \<noteq> [] \<longrightarrow>
        final_fs fs (fst (classify_save c NoFault NoFault fs final_data output_path
            filtered_output_path)) output_path = Some (dumps c final_data)
        \<and> final_fs fs (fst (classify_save c NoFault NoFault fs final_data output_path
            filtered_output_path)) filtered_output_path
            = Some (dumps c (filter positive final_data)))"
proof -
  have 1: "descending published (harvest qs)"
    by (simp add: harvest_def descending_sort_desc)
  have 2: "final_fs fs (fst (arxiv_main c NoFault fs 0 outp qs)) outp
      = Some (dumps c (harvest qs))"
    by (rule arxiv_main_rebuild)
  have 3: "fst (merge_incremental (harvest qs) P (url ` set P)) = new_records (harvest qs) P @ P"
    by (simp add: merge_incremental_eq)
  have 4: "descending published (new_records (harvest qs) P)"
    using 1 by (simp add: new_records_def descending_filter)
  have 5: "descending published (fst (tag_annotate svcs overwrite all_papers existing_papers))"
    by (rule descending_tag_annotate)
  have 6: "fs inp = Some txt0 \<and> loads c txt0 = Some all_papers \<longrightarrow>
        final_fs fs (fst (tag_main c svcs overwrite NoFault fs inp outp)) outp
          = Some (dumps c (fst (tag_annotate svcs overwrite all_papers
                                  (load_tagged c fs outp overwrite))))"
    using tag_main_saves[of fs inp txt0 c all_papers svcs overwrite outp] by blast
  have 7: "descending published (sort_desc published papers)"
    by (rule descending_sort_desc)
  have 8: "fs data_file_path = Some txt1 \<and> loads c txt1 = Some papers \<longrightarrow>
        final_fs fs (fst (shuffle_and_sort_papers c NoFault fs data_file_path)) data_file_path
          = Some (dumps c (sort_desc published papers))"
    using shuffle_sorts[of fs data_file_path txt1 c papers] by blast
  have 9: "\<exists>processed ds.
          classify_annotate svcs overwrite data (Some labeled_data)
            = Inr (labeled_data @ processed, ds)
          \<and> map url processed = map url (classify_select data (Some labeled_data) overwrite)
          \<and> map published processed
              = map published (classify_select data (Some labeled_data) overwrite)"
    by (rule classify_annotate_diff)
  have 10: "output_path \<noteq> filtered_output_path
        \<and> output_path \<noteq> filtered_output_path @ ''.tmp''
        \<and> filter positive final_data \<noteq> [] \<longrightarrow>
        final_fs fs (fst (classify_save c NoFault NoFault fs final_data output_path
            filtered_output_path)) output_path = Some (dumps c final_data)
        \<and> final_fs fs (fst (classify_save c NoFault NoFault fs final_data output_path
            filtered_output_path)) filtered_output_path
            = Some (dumps c (filter positive final_data))"
    using classify_save_files[of output_path filtered_output_path final_data fs c] by blast
  from 1 2 3 4 5 6 7 8 9 10 show ?thesis by (intro conjI)
qed

theorem saved_order_witness:
  "letters_fs ''in.json'' = Some ''XY''
   \<and> loads letters_codec ''XY'' = Some [paper_X, paper_Y]
   \<and> letters_fs ''filter_papers.json'' = Some ''XY''
   \<and> ''labeled.json'' \<noteq> ''filter_papers.json''
   \<and> ''labeled.json'' \<noteq> ''filter_papers.json'' @ ''.tmp''
   \<and> filter positive [paper_X\<lparr>ai_for_hw := Some True\<rparr>, paper_Y\<lparr>ai_for_hw := Some True\<rparr>] \<noteq> []
   \<and> final_fs letters_fs (fst (tag_main letters_codec (\<lambda>k. answers ''Testing'') True NoFault
         letters_fs ''in.json'' ''out.json'')) ''out.json'' = Some ''YX''
   \<and> final_fs letters_fs (fst (shuffle_and_sort_papers letters_codec NoFault letters_fs
         ''filter_papers.json'')) ''filter_papers.json'' = Some ''YX''
   \<and> final_fs letters_fs (fst (classify_save letters_codec NoFault NoFault letters_fs
         [paper_X\<lparr>ai_for_hw := Some True\<rparr>, paper_Y\<lparr>ai_for_hw := Some True\<rparr>]
         ''labeled.json'' ''filter_papers.json'')) ''filter_papers.json'' = Some ''XY''"
proof -
  let ?fd = "[paper_X\<lparr>ai_for_hw := Some True\<rparr>, paper_Y\<lparr>ai_for_hw := Some True\<rparr>]"
  have a: "letters_fs ''in.json'' = Some ''XY''" by (simp add: letters_fs_def)
  have b: "loads letters_codec ''XY'' = Some [paper_X, paper_Y]"
    by (simp add: letters_codec_def paper_of_letter_def)
  have a': "letters_fs ''filter_papers.json'' = Some ''XY''" by (simp add: letters_fs_def)
  have p1: "''labeled.json'' \<noteq> ''filter_papers.json''" by simp
  have p2: "''labeled.json'' \<noteq> ''filter_papers.json'' @ ''.tmp''" by simp
  have f: "filter positive ?fd = ?fd" by (simp add: positive_def)
  then have p3: "filter positive ?fd \<noteq> []" by simp
  note inst = saved_order[where fs = letters_fs and c = letters_codec
      and inp = "''in.json''" and ?txt0.0 = "''XY''" and all_papers = "[paper_X, paper_Y]"
      and svcs = "\<lambda>k. answers ''Testing''" and overwrite = True and outp = "''out.json''"
      and data_file_path = "''filter_papers.json''" and ?txt1.0 = "''XY''"
      and papers = "[paper_X, paper_Y]"
      and output_path = "''labeled.json''" and filtered_output_path = "''filter_papers.json''"
      and final_data = ?fd]
  have e1: "dumps letters_codec (fst (tag_annotate (\<lambda>k. answers ''Testing'') True
        [paper_X, paper_Y] (load_tagged letters_codec letters_fs ''out.json'' True))) = ''YX''"
    by code_simp
  have "final_fs letters_fs (fst (tag_main letters_codec (\<lambda>k. answers ''Testing'') True NoFault
         letters_fs ''in.json'' ''out.json'')) ''out.json''
      = Some (dumps letters_codec (fst (tag_annotate (\<lambda>k. answers ''Testing'') True
          [paper_X, paper_Y] (load_tagged letters_codec letters_fs ''out.json'' True))))"
    using inst a b by blast
  then have r1: "final_fs letters_fs (fst (tag_main letters_codec (\<lambda>k. answers ''Testing'') True
         NoFault letters_fs ''in.json'' ''out.json'')) ''out.json'' = Some ''YX''"
    by (simp only: e1)
  have e2: "dumps letters_codec (sort_desc published [paper_X, paper_Y]) = ''YX''"
    by code_simp
  have "final_fs letters_fs (fst (shuffle_and_sort_papers letters_codec NoFault letters_fs
         ''filter_papers.json'')) ''filter_papers.json''
      = Some (dumps letters_codec (sort_desc published [paper_X, paper_Y]))"
    using inst a' b by blast
  then have r2: "final_fs letters_fs (fst (shuffle_and_sort_papers letters_codec NoFault
         letters_fs ''filter_papers.json'')) ''filter_papers.json'' = Some ''YX''"
    by (simp only: e2)
  have e3: "dumps letters_codec (filter positive ?fd) = ''XY''"
    unfolding f by (simp add: letters_codec_def paper_X_def paper_Y_def mk_paper_def)
  have "final_fs letters_fs (fst (classify_save letters_codec NoFault NoFault letters_fs ?fd
         ''labeled.json'' ''filter_papers.json'')) ''filter_papers.json''
      = Some (dumps letters_codec (filter positive ?fd))"
    using inst p1 p2 p3 by blast
  then have r3: "final_fs letters_fs (fst (classify_save letters_codec NoFault NoFault letters_fs
         ?fd ''labeled.json'' ''filter_papers.json'')) ''filter_papers.json'' = Some ''XY''"
    by (simp only: e3)
  from a b a' p1 p2 p3 r1 r2 r3 show ?thesis by (intro conjI)
qed

text \<open>
  C4 as stated fails for the incremental merge, where a newly harvested paper older than a
  persisted one is still put first, and for the classifier, which appends the newly
  labeled records to the labeled file's records: from sorted inputs its labeled and
  filtered outputs come out in ascending order.
\<close>

theorem saved_order_counterexample:
  "harvest [([mk_result ''O'' ''2023-01-01T00:00:00Z''], Exhausted)] = [paper_Old]
   \<and> merge_incremental [paper_Old] [paper_X] {''X''} = ([paper_Old, paper_X], 1)
   \<and> descending published [paper_X]
   \<and> \<not> descending published [paper_Old, paper_X]
   \<and> classify_annotate (\<lambda>k. answers ''true'') False [paper_Y, paper_X]
         (Some [paper_X\<lparr>ai_for_hw := Some True\<rparr>])
       = Inr ([paper_X\<lparr>ai_for_hw := Some True\<rparr>, paper_Y\<lparr>ai_for_hw := Some True\<rparr>], [])
   \<and> filter positive [paper_X\<lparr>ai_for_hw := Some True\<rparr>, paper_Y\<lparr>ai_for_hw := Some True\<rparr>]
       = [paper_X\<lparr>ai_for_hw := Some True\<rparr>, paper_Y\<lparr>ai_for_hw := Some True\<rparr>]
   \<and> descending published [paper_Y, paper_X]
   \<and> \<not> descending published
         [paper_X\<lparr>ai_for_hw := Some True\<rparr>, paper_Y\<lparr>ai_for_hw := Some True\<rparr>]"
  by code_simp

text \<open>
  C3.  Run on an input of one unlabeled paper with no labeled file to diff against, the
  classifier saves that paper twice: \<open>final_data\<close> is the input list itself, and the
  processed items, which are elements of that list, are appended to it again.
\<close>

theorem classify_without_diff_duplicates:
  "classify_annotate (\<lambda>k. answers ''true'') False [paper_X] None
     = Inr ([paper_X\<lparr>ai_for_hw := Some True\<rparr>, paper_X\<lparr>ai_for_hw := Some True\<rparr>], [])
   \<and> \<not> distinct (map url [paper_X\<lparr>ai_for_hw := Some True\<rparr>, paper_X\<lparr>ai_for_hw := Some True\<rparr>])
   \<and> final_fs example_fs
        (fst (classify_main example_codec (\<lambda>k. answers ''true'') False NoFault NoFault NoFault
               example_fs ''in.json'' ''in_labeled.json'' ''filter_papers.json''
               ''in_unlabeled.json'' ''labeled.json''))
        ''in_labeled.json'' = Some ''XX''"
  by code_simp

end
